theory Spec2Isabelle
  imports Main "HOL-Library.Multiset"
begin

section \<open>Python values used by the notebook core\<close>

text \<open>
  Strings are \<open>string\<close>: lists of characters, a character standing for a code point
  below 256.  A Python \<open>set[str]\<close> is kept as the list of its elements without repetition,
  in the order they were added; membership, union, intersection and difference are the
  list versions of the set operations.  The order in which CPython iterates over a set of
  strings is not the insertion order (it follows the hashes, which change from process to
  process), so every \<open>for x in s\<close> over a set goes through the iteration order \<open>set_iter\<close>
  of the runtime record below.  A \<open>dict\<close> keeps insertion order in Python; it is an
  association list, \<open>dict_set\<close> being \<open>d[k] = v\<close>.
\<close>

type_synonym pyset = "string list"

definition set_add :: "string \<Rightarrow> pyset \<Rightarrow> pyset" where
  "set_add x s = (if x \<in> set s then s else s @ [x])"

definition set_union :: "pyset \<Rightarrow> pyset \<Rightarrow> pyset" where
  "set_union s t = fold set_add t s"

definition set_diff :: "pyset \<Rightarrow> pyset \<Rightarrow> pyset" where
  "set_diff s t = filter (\<lambda>x. x \<notin> set t) s"

definition set_inter :: "pyset \<Rightarrow> pyset \<Rightarrow> pyset" where
  "set_inter s t = filter (\<lambda>x. x \<in> set t) s"

type_synonym ('k, 'v) dict = "('k \<times> 'v) list"

fun dict_set :: "'k \<Rightarrow> 'v \<Rightarrow> ('k, 'v) dict \<Rightarrow> ('k, 'v) dict" where
  "dict_set k v [] = [(k, v)]"
| "dict_set k v ((k', v') # d) = (if k = k' then (k, v) # d else (k', v') # dict_set k v d)"

definition dict_get :: "('k, 'v) dict \<Rightarrow> 'k \<Rightarrow> 'v option" where
  "dict_get d k = map_of d k"

definition dict_keys :: "('k, 'v) dict \<Rightarrow> 'k list" where
  "dict_keys d = map fst d"

section \<open>The abstract syntax tree walked by the analyzer\<close>

text \<open>
  \<open>ast.parse\<close> belongs to the Python library, not to the repository: it is the field
  \<open>ast_parse\<close> of the runtime record, \<open>None\<close> standing for \<open>SyntaxError\<close>.  The tree has
  one constructor for every node class that \<open>VariableVisitor\<close> treats specially (or that
  \<open>_visit_target\<close> inspects) and the constructor \<open>Node\<close> for every other class, with the
  class name and the child nodes in field order: \<open>NodeVisitor.generic_visit\<close> visits
  exactly these children, in this order.  For example \<open>Assign(targets, value)\<close> is
  \<open>Node ''Assign'' (targets @ [value])\<close>.
\<close>

datatype expr_context = Load | Store | Del

datatype py_alias = Alias (alias_name: string) (asname: "string option")

datatype ast =
    Name string expr_context
  | AugAssign ast ast
  | FunctionDef string "ast list" "ast option list" "ast list"
  | AsyncFunctionDef string "ast list" "ast option list" "ast list"
  | ClassDef string "ast list" "ast list"
  | Import "py_alias list"
  | ImportFrom "py_alias list"
  | For ast ast "ast list" "ast list"
  | Comprehension ast ast "ast list"
  | Tuple "ast list" expr_context
  | ListNode "ast list" expr_context
  | Node string "ast list"

text \<open>
  An iteration order is any function that permutes the list it is given.
\<close>

typedef set_order = "{f :: string list \<Rightarrow> string list. \<forall>xs. mset (f xs) = mset xs}"
  by (rule exI [of _ "\<lambda>xs. xs"]) simp

setup_lifting type_definition_set_order

lift_definition iterate :: "set_order \<Rightarrow> pyset \<Rightarrow> string list" is "\<lambda>f. f" .

lift_definition insertion_order :: set_order is "\<lambda>xs. xs"
  by simp

lift_definition reversed_order :: set_order is rev
  by simp

record runtime =
  ast_parse :: "string \<Rightarrow> ast option"
  set_iter :: set_order

definition iter_set :: "runtime \<Rightarrow> pyset \<Rightarrow> string list" where
  "iter_set rt s = iterate (set_iter rt) s"

section \<open>dependency.py: VariableVisitor\<close>

record VariableVisitor =
  reads :: pyset
  writes :: pyset
  required_reads :: pyset
  local_scope :: pyset

definition VariableVisitor_init :: VariableVisitor where
  "VariableVisitor_init = \<lparr>reads = [], writes = [], required_reads = [], local_scope = []\<rparr>"

definition write_name :: "string \<Rightarrow> VariableVisitor \<Rightarrow> VariableVisitor" where
  "write_name n v = v\<lparr>writes := set_add n (writes v), local_scope := set_add n (local_scope v)\<rparr>"

fun visit_target :: "ast \<Rightarrow> VariableVisitor \<Rightarrow> VariableVisitor" where
  "visit_target (Name n c) v = write_name n v"
| "visit_target (Tuple elts c) v = fold visit_target elts v"
| "visit_target (ListNode elts c) v = fold visit_target elts v"
| "visit_target _ v = v"

definition split_dot_head :: "string \<Rightarrow> string" where
  "split_dot_head s = takeWhile (\<lambda>c. c \<noteq> CHR ''.'') s"

definition visit_Import :: "py_alias list \<Rightarrow> VariableVisitor \<Rightarrow> VariableVisitor" where
  "visit_Import names v =
     fold (\<lambda>a. write_name (case asname a of
                              Some n \<Rightarrow> if n \<noteq> [] then n else split_dot_head (alias_name a)
                            | None \<Rightarrow> split_dot_head (alias_name a))) names v"

definition visit_ImportFrom :: "py_alias list \<Rightarrow> VariableVisitor \<Rightarrow> VariableVisitor" where
  "visit_ImportFrom names v =
     fold (\<lambda>a w. let n = (case asname a of
                              Some n \<Rightarrow> if n \<noteq> [] then n else alias_name a
                            | None \<Rightarrow> alias_name a)
                  in if n \<noteq> ''*'' then write_name n w else w) names v"

definition visit_AugAssign_target :: "ast \<Rightarrow> VariableVisitor \<Rightarrow> VariableVisitor" where
  "visit_AugAssign_target target v =
     (case target of
        Name n c \<Rightarrow>
          write_name n
            (if n \<notin> set (local_scope v)
             then v\<lparr>reads := set_add n (reads v), required_reads := set_add n (required_reads v)\<rparr>
             else v)
      | _ \<Rightarrow> v)"

fun visit :: "ast \<Rightarrow> VariableVisitor \<Rightarrow> VariableVisitor" where
  "visit (Name n c) v =
     (case c of
        Load \<Rightarrow> if n \<notin> set (local_scope v) then v\<lparr>reads := set_add n (reads v)\<rparr> else v
      | Store \<Rightarrow> write_name n v
      | Del \<Rightarrow> v)"
| "visit (AugAssign target val) v = visit val (visit_AugAssign_target target v)"
| "visit (FunctionDef n defaults kw_defaults body) v =
     fold (\<lambda>d w. case d of Some e \<Rightarrow> visit e w | None \<Rightarrow> w) kw_defaults
       (fold visit defaults (write_name n v))"
| "visit (AsyncFunctionDef n defaults kw_defaults body) v =
     fold (\<lambda>d w. case d of Some e \<Rightarrow> visit e w | None \<Rightarrow> w) kw_defaults
       (fold visit defaults (write_name n v))"
| "visit (ClassDef n bases body) v = fold visit bases (write_name n v)"
| "visit (Import names) v = visit_Import names v"
| "visit (ImportFrom names) v = visit_ImportFrom names v"
| "visit (For target iter body orelse) v =
     fold visit orelse (fold visit body (visit iter (visit_target target v)))"
| "visit (Comprehension target iter ifs) v =
     fold visit ifs (visit iter (visit_target target v))"
| "visit (Tuple elts c) v = fold visit elts v"
| "visit (ListNode elts c) v = fold visit elts v"
| "visit (Node cls children) v = fold visit children v"

section \<open>parser.py: the Cell record\<close>

record Cell =
  cid :: string
  code :: string
  cell_type :: string
  as_var :: "string option"

section \<open>dependency.py: analysis of one cell\<close>

record CellAnalysis =
  analysis_cell_id :: string
  analysis_reads :: pyset
  analysis_writes :: pyset

definition common_builtins :: pyset where
  "common_builtins =
    [''print'', ''len'', ''range'', ''str'', ''int'', ''float'', ''list'', ''dict'', ''set'',
     ''tuple'', ''bool'', ''type'', ''isinstance'', ''hasattr'', ''getattr'', ''setattr'',
     ''open'', ''file'', ''input'', ''output'', ''sum'', ''min'', ''max'', ''abs'', ''round'',
     ''sorted'', ''reversed'', ''enumerate'', ''zip'', ''map'', ''filter'', ''any'', ''all'',
     ''None'', ''True'', ''False'', ''Exception'', ''ValueError'', ''TypeError'', ''KeyError'',
     ''__name__'', ''__file__'', ''__doc__'']"

definition analyze_python_code :: "runtime \<Rightarrow> string \<Rightarrow> pyset \<times> pyset" where
  "analyze_python_code rt src =
     (case ast_parse rt src of
        None \<Rightarrow> ([], [])
      | Some tree \<Rightarrow>
          let visitor = visit tree VariableVisitor_init
          in (set_union (set_diff (set_diff (reads visitor) common_builtins) (writes visitor))
                (required_reads visitor),
              writes visitor))"

definition analyze_cell :: "runtime \<Rightarrow> Cell \<Rightarrow> CellAnalysis" where
  "analyze_cell rt cell =
     (if cell_type cell = ''sql''
      then \<lparr>analysis_cell_id = cid cell, analysis_reads = [],
            analysis_writes =
              (case as_var cell of
                 Some a \<Rightarrow> if a \<noteq> [] then [a] else [''_sql_'' @ cid cell]
               | None \<Rightarrow> [''_sql_'' @ cid cell])\<rparr>
      else (case analyze_python_code rt (code cell) of
              (rs, ws) \<Rightarrow> \<lparr>analysis_cell_id = cid cell, analysis_reads = rs, analysis_writes = ws\<rparr>))"

section \<open>dependency.py: the dependency graph\<close>

type_synonym graph = "(string, pyset) dict"

definition analyses_of :: "runtime \<Rightarrow> Cell list \<Rightarrow> (string, CellAnalysis) dict" where
  "analyses_of rt cells = fold (\<lambda>cell d. dict_set (cid cell) (analyze_cell rt cell) d) cells []"

text \<open>
  \<open>analyses[cell.id]\<close> is read only for the cells the dictionary was built from, so the
  key is always present (lemma \<open>analyses_of_defined\<close> below); the \<open>None\<close> branches of the
  two loops are never taken.
\<close>

definition var_to_cell_of ::
  "runtime \<Rightarrow> (string, CellAnalysis) dict \<Rightarrow> Cell list \<Rightarrow> (string, string) dict" where
  "var_to_cell_of rt analyses cells =
     fold (\<lambda>cell m.
             case dict_get analyses (cid cell) of
               None \<Rightarrow> m
             | Some analysis \<Rightarrow>
                 fold (\<lambda>var m'. dict_set var (cid cell) m') (iter_set rt (analysis_writes analysis)) m)
          cells []"

definition dependencies_of ::
  "runtime \<Rightarrow> (string, string) dict \<Rightarrow> string \<Rightarrow> CellAnalysis \<Rightarrow> pyset" where
  "dependencies_of rt var_to_cell i analysis =
     fold (\<lambda>var deps.
             case dict_get var_to_cell var of
               None \<Rightarrow> deps
             | Some upstream_cell \<Rightarrow> if upstream_cell \<noteq> i then set_add upstream_cell deps else deps)
          (iter_set rt (analysis_reads analysis)) []"

definition build_dependency_graph :: "runtime \<Rightarrow> Cell list \<Rightarrow> graph" where
  "build_dependency_graph rt cells =
     (let analyses = analyses_of rt cells;
          var_to_cell = var_to_cell_of rt analyses cells
      in fold (\<lambda>cell g.
                 case dict_get analyses (cid cell) of
                   None \<Rightarrow> g
                 | Some analysis \<Rightarrow>
                     dict_set (cid cell) (dependencies_of rt var_to_cell (cid cell) analysis) g)
              cells [])"

section \<open>Iteration order: basic facts\<close>

lemma mset_iterate: "mset (iterate t s) = mset s"
  by transfer simp

lemma mset_iter_set: "mset (iter_set rt s) = mset s"
  by (simp add: iter_set_def mset_iterate)

lemma set_iter_set [simp]: "set (iter_set rt s) = set s"
  by (metis mset_iter_set set_mset_mset)

lemma length_iter_set [simp]: "length (iter_set rt s) = length s"
  by (metis mset_iter_set size_mset)

lemma iter_set_Nil [simp]: "iter_set rt [] = []"
  using length_iter_set [of rt "[]"] by (simp del: length_iter_set)

section \<open>dependency.py: get_downstream_cells\<close>

text \<open>
  \<open>get_or_empty d k\<close> is \<open>d.get(k, set())\<close>.  \<open>invert_graph\<close> is the first half of
  \<open>get_downstream_cells\<close> (the dictionary \<open>downstream\<close>), \<open>bfs\<close> its \<open>while queue\<close> loop.
\<close>

definition get_or_empty :: "graph \<Rightarrow> string \<Rightarrow> pyset" where
  "get_or_empty d k = (case dict_get d k of Some s \<Rightarrow> s | None \<Rightarrow> [])"

definition invert_graph :: "runtime \<Rightarrow> graph \<Rightarrow> graph" where
  "invert_graph rt g =
     fold (\<lambda>(i, deps) ds.
             fold (\<lambda>dep ds'. case dict_get ds' dep of
                                 Some s \<Rightarrow> dict_set dep (set_add i s) ds'
                               | None \<Rightarrow> ds')
                  (iter_set rt deps) ds)
          g (map (\<lambda>(i, deps). (i, [])) g)"

function bfs :: "runtime \<Rightarrow> graph \<Rightarrow> string list \<Rightarrow> pyset \<Rightarrow> pyset" where
  "bfs rt downstream [] result = result"
| "bfs rt downstream (current # queue) result =
     (if current \<notin> set result
      then bfs rt downstream (queue @ iter_set rt (get_or_empty downstream current)) (set_add current result)
      else bfs rt downstream queue result)"
  by pat_completeness auto
termination
proof (relation "measures [\<lambda>(rt, ds, q, res). card (set (dict_keys ds) - set res),
                           \<lambda>(rt, ds, q, res). length q]", goal_cases)
  case 1
  then show ?case by simp
next
  case (2 rt ds current queue result)
  show ?case
  proof (cases "current \<in> set (dict_keys ds)")
    case True
    have "set (dict_keys ds) - set (set_add current result) = (set (dict_keys ds) - set result) - {current}"
      by (auto simp: set_add_def)
    moreover have "current \<in> set (dict_keys ds) - set result"
      using True 2 by simp
    ultimately have "card (set (dict_keys ds) - set (set_add current result)) < card (set (dict_keys ds) - set result)"
      by (metis List.finite_set card_Diff1_less finite_Diff)
    then show ?thesis by simp
  next
    case False
    then have "get_or_empty ds current = []"
      by (auto simp: get_or_empty_def dict_get_def dict_keys_def split: option.splits dest: map_of_SomeD intro: rev_image_eqI)
    moreover have "set (dict_keys ds) - set (set_add current result) = set (dict_keys ds) - set result"
      using False by (auto simp: set_add_def)
    ultimately show ?thesis by simp
  qed
next
  case 3
  then show ?case by simp
qed

definition get_downstream_cells :: "runtime \<Rightarrow> graph \<Rightarrow> string \<Rightarrow> pyset" where
  "get_downstream_cells rt g i =
     (let downstream = invert_graph rt g
      in bfs rt downstream (iter_set rt (get_or_empty downstream i)) [])"

section \<open>dependency.py: topological_sort\<close>

text \<open>
  The nested function \<open>visit\<close> of \<open>topological_sort\<close> is \<open>topo_visit\<close>; its \<open>for dep in ...\<close>
  loop is \<open>topo_visit_deps\<close>.  The three variables it shares with the enclosing function
  (\<open>result\<close>, \<open>visited\<close>, \<open>temp_visited\<close>) are the record \<open>topo_state\<close>.
\<close>

record topo_state =
  result :: "string list"
  visited :: pyset
  temp_visited :: pyset

definition subgraph_of :: "graph \<Rightarrow> pyset \<Rightarrow> graph" where
  "subgraph_of g cell_ids =
     map (\<lambda>(i, deps). (i, set_inter deps cell_ids)) (filter (\<lambda>(i, deps). i \<in> set cell_ids) g)"

function topo_visit :: "runtime \<Rightarrow> graph \<Rightarrow> string \<Rightarrow> topo_state \<Rightarrow> topo_state"
  and topo_visit_deps :: "runtime \<Rightarrow> graph \<Rightarrow> string list \<Rightarrow> topo_state \<Rightarrow> topo_state"
where
  "topo_visit rt subgraph node st =
     (if node \<in> set (temp_visited st) then st
      else if node \<in> set (visited st) then st
      else
        let st1 = st\<lparr>temp_visited := set_add node (temp_visited st)\<rparr>;
            st2 = topo_visit_deps rt subgraph (iter_set rt (get_or_empty subgraph node)) st1
        in st2\<lparr>temp_visited := removeAll node (temp_visited st2),
                visited := set_add node (visited st2),
                result := result st2 @ [node]\<rparr>)"
| "topo_visit_deps rt subgraph [] st = st"
| "topo_visit_deps rt subgraph (dep # deps) st =
     topo_visit_deps rt subgraph deps (topo_visit rt subgraph dep st)"
  by pat_completeness auto

definition topo_unmarked :: "graph \<Rightarrow> topo_state \<Rightarrow> nat" where
  "topo_unmarked sg st = card (set (dict_keys sg) - set (temp_visited st) - set (visited st))"

lemma topo_marks_partial:
  "topo_visit_topo_visit_deps_dom (Inl (rt, sg, node, st)) \<Longrightarrow>
     set (temp_visited (topo_visit rt sg node st)) = set (temp_visited st) \<and>
     set (visited st) \<subseteq> set (visited (topo_visit rt sg node st))"
  "topo_visit_topo_visit_deps_dom (Inr (rt, sg, deps, st)) \<Longrightarrow>
     set (temp_visited (topo_visit_deps rt sg deps st)) = set (temp_visited st) \<and>
     set (visited st) \<subseteq> set (visited (topo_visit_deps rt sg deps st))"
proof (induction rt sg node st and rt sg deps st rule: topo_visit_topo_visit_deps.pinduct)
  case (1 rt sg node st)
  then show ?case
    by (auto simp: topo_visit.psimps Let_def set_add_def)
next
  case (2 rt sg st)
  then show ?case by (simp add: topo_visit_deps.psimps)
next
  case (3 rt sg dep deps st)
  then show ?case by (auto simp: topo_visit_deps.psimps)
qed

termination topo_visit
proof (relation "measures [\<lambda>x. case x of Inl (rt, sg, node, st) \<Rightarrow> topo_unmarked sg st
                                      | Inr (rt, sg, deps, st) \<Rightarrow> topo_unmarked sg st,
                           \<lambda>x. case x of Inl (rt, sg, node, st) \<Rightarrow> 1
                                      | Inr (rt, sg, deps, st) \<Rightarrow> 2 * length deps]", goal_cases)
  case 1
  then show ?case by simp
next
  case (2 rt sg node st st1)
  show ?case
  proof (cases "node \<in> set (dict_keys sg)")
    case True
    have "set (dict_keys sg) - set (temp_visited st1) - set (visited st1)
            = (set (dict_keys sg) - set (temp_visited st) - set (visited st)) - {node}"
      using 2 by (auto simp: set_add_def)
    moreover have "node \<in> set (dict_keys sg) - set (temp_visited st) - set (visited st)"
      using True 2 by simp
    ultimately have "topo_unmarked sg st1 < topo_unmarked sg st"
      unfolding topo_unmarked_def by (metis List.finite_set card_Diff1_less finite_Diff)
    then show ?thesis by simp
  next
    case False
    then have "get_or_empty sg node = []"
      by (auto simp: get_or_empty_def dict_get_def dict_keys_def split: option.splits
               dest: map_of_SomeD intro: rev_image_eqI)
    moreover have "topo_unmarked sg st1 = topo_unmarked sg st"
      using False 2 unfolding topo_unmarked_def
      by (auto simp: set_add_def intro!: arg_cong[where f=card])
    ultimately show ?thesis by simp
  qed
next
  case 3
  then show ?case by simp
next
  case (4 rt sg dep deps st)
  have "topo_unmarked sg (topo_visit rt sg dep st) \<le> topo_unmarked sg st"
    unfolding topo_unmarked_def using topo_marks_partial(1)[OF 4]
    by (intro card_mono) auto
  then show ?case by auto
qed

definition topological_sort :: "runtime \<Rightarrow> graph \<Rightarrow> pyset \<Rightarrow> string list" where
  "topological_sort rt g cell_ids =
     (let subgraph = subgraph_of g cell_ids;
          st = fold (\<lambda>i st. if i \<notin> set (visited st) then topo_visit rt subgraph i st else st)
                 (iter_set rt cell_ids) \<lparr>result = [], visited = [], temp_visited = []\<rparr>
      in result st)"

section \<open>dependency.py: detect_cycle\<close>

text \<open>
  The nested function \<open>dfs\<close> of \<open>detect_cycle\<close> with its \<open>for neighbor in ...\<close> loop
  (\<open>dfs_neighbors\<close>); the dictionaries \<open>color\<close> and \<open>parent\<close> are the record \<open>dfs_state\<close>.
  The \<open>while\<close> loop that walks the parent pointers has no bound in the source; in the model
  it runs on fuel, one more than the number of entries of \<open>parent\<close>, and \<open>None\<close> says that
  no list is returned (the loop does not end, or \<open>parent[current]\<close> raises \<open>KeyError\<close>).
  The result of \<open>dfs\<close> is therefore \<open>None\<close> (no return), \<open>Some None\<close> (Python's \<open>None\<close>: no
  cycle) or \<open>Some (Some cycle)\<close>.  The tests \<open>parent[current] and ...\<close> and \<open>if result:\<close> are
  Python truth tests: the empty string and the empty list count as false.
\<close>

datatype node_color = WHITE | GRAY | BLACK

record dfs_state =
  color :: "(string, node_color) dict"
  parent :: "(string, string option) dict"

fun walk_parents ::
  "nat \<Rightarrow> (string, string option) dict \<Rightarrow> string \<Rightarrow> string \<Rightarrow> string list \<Rightarrow> string list option" where
  "walk_parents 0 par neighbor current cycle = None"
| "walk_parents (Suc fuel) par neighbor current cycle =
     (case dict_get par current of
        None \<Rightarrow> None
      | Some None \<Rightarrow> Some cycle
      | Some (Some p) \<Rightarrow>
          if p \<noteq> [] \<and> p \<noteq> neighbor then walk_parents fuel par neighbor p (cycle @ [p])
          else Some cycle)"

function dfs :: "runtime \<Rightarrow> graph \<Rightarrow> string \<Rightarrow> dfs_state \<Rightarrow> string list option option \<times> dfs_state"
  and dfs_neighbors ::
    "runtime \<Rightarrow> graph \<Rightarrow> string \<Rightarrow> string list \<Rightarrow> dfs_state \<Rightarrow> string list option option \<times> dfs_state"
where
  "dfs rt g node st =
     (case dfs_neighbors rt g node (iter_set rt (get_or_empty g node))
             (st\<lparr>color := dict_set node GRAY (color st)\<rparr>) of
        (Some None, st2) \<Rightarrow> (Some None, st2\<lparr>color := dict_set node BLACK (color st2)\<rparr>)
      | (r, st2) \<Rightarrow> (r, st2))"
| "dfs_neighbors rt g node [] st = (Some None, st)"
| "dfs_neighbors rt g node (neighbor # rest) st =
     (case dict_get (color st) neighbor of
        None \<Rightarrow> dfs_neighbors rt g node rest st
      | Some GRAY \<Rightarrow>
          (map_option Some
             (walk_parents (Suc (length (parent st))) (parent st) neighbor node [neighbor, node]), st)
      | Some WHITE \<Rightarrow>
          (case dfs rt g neighbor (st\<lparr>parent := dict_set neighbor (Some node) (parent st)\<rparr>) of
             (None, st') \<Rightarrow> (None, st')
           | (Some None, st') \<Rightarrow> dfs_neighbors rt g node rest st'
           | (Some (Some cyc), st') \<Rightarrow>
               if cyc \<noteq> [] then (Some (Some cyc), st') else dfs_neighbors rt g node rest st')
      | Some BLACK \<Rightarrow> dfs_neighbors rt g node rest st)"
  by pat_completeness auto

definition whites :: "(string, node_color) dict \<Rightarrow> string set" where
  "whites c = {n \<in> set (dict_keys c). dict_get c n = Some WHITE}"

lemma dict_get_dict_set: "dict_get (dict_set k v d) k' = (if k' = k then Some v else dict_get d k')"
  by (induction d) (auto simp: dict_get_def)

lemma dict_get_Some_key: "dict_get d k = Some v \<Longrightarrow> k \<in> set (dict_keys d)"
  by (auto simp: dict_get_def dict_keys_def dest: map_of_SomeD intro: rev_image_eqI)

lemma whites_alt: "whites c = {n. dict_get c n = Some WHITE}"
  by (auto simp: whites_def dict_get_Some_key)

lemma finite_whites [simp]: "finite (whites c)"
  by (simp add: whites_def)

lemma whites_dict_set: "v \<noteq> WHITE \<Longrightarrow> whites (dict_set k v c) = whites c - {k}"
  by (auto simp: whites_alt dict_get_dict_set)

lemma dfs_whites_partial:
  "dfs_dfs_neighbors_dom (Inl (rt, g, node, st)) \<Longrightarrow>
     whites (color (snd (dfs rt g node st))) \<subseteq> whites (color st)"
  "dfs_dfs_neighbors_dom (Inr (rt, g, node, ns, st)) \<Longrightarrow>
     whites (color (snd (dfs_neighbors rt g node ns st))) \<subseteq> whites (color st)"
proof (induction rt g node st and rt g node ns st rule: dfs_dfs_neighbors.pinduct)
  case (1 rt g node st)
  then show ?case
    by (auto simp: dfs.psimps whites_dict_set split: prod.splits option.splits)
next
  case (2 rt g node st)
  then show ?case by (simp add: dfs_neighbors.psimps)
next
  case (3 rt g node neighbor rest st)
  show ?case
  proof (cases "dict_get (color st) neighbor")
    case None
    with 3 show ?thesis by (simp add: dfs_neighbors.psimps)
  next
    case (Some c)
    show ?thesis
    proof (cases c)
      case WHITE
      obtain r st' where d: "dfs rt g neighbor (st\<lparr>parent := dict_set neighbor (Some node) (parent st)\<rparr>) = (r, st')"
        by (cases "dfs rt g neighbor (st\<lparr>parent := dict_set neighbor (Some node) (parent st)\<rparr>)")
      have sub: "whites (color st') \<subseteq> whites (color st)"
        using 3(3)[OF Some WHITE] d by simp
      show ?thesis
      proof (cases r)
        case None
        with 3(1) Some WHITE d sub show ?thesis by (simp add: dfs_neighbors.psimps)
      next
        case (Some oc)
        note r = this
        show ?thesis
        proof (cases oc)
          case None
          have "whites (color (snd (dfs_neighbors rt g node rest st'))) \<subseteq> whites (color st')"
            using 3(4)[OF \<open>dict_get (color st) neighbor = Some c\<close> WHITE d[symmetric]] r None by simp
          with 3(1) \<open>dict_get (color st) neighbor = Some c\<close> WHITE d sub r None show ?thesis
            by (auto simp: dfs_neighbors.psimps)
        next
          case (Some cyc)
          show ?thesis
          proof (cases "cyc = []")
            case True
            have "whites (color (snd (dfs_neighbors rt g node rest st'))) \<subseteq> whites (color st')"
              using 3(5)[OF \<open>dict_get (color st) neighbor = Some c\<close> WHITE d[symmetric]] r Some True by simp
            with 3(1) \<open>dict_get (color st) neighbor = Some c\<close> WHITE d sub r Some True show ?thesis
              by (auto simp: dfs_neighbors.psimps)
          next
            case False
            with 3(1) \<open>dict_get (color st) neighbor = Some c\<close> WHITE d sub r Some show ?thesis
              by (simp add: dfs_neighbors.psimps)
          qed
        qed
      qed
    next
      case GRAY
      with 3(1) Some show ?thesis by (simp add: dfs_neighbors.psimps)
    next
      case BLACK
      with 3 Some show ?thesis by (simp add: dfs_neighbors.psimps)
    qed
  qed
qed


termination dfs
proof (relation "measures [\<lambda>x. case x of Inl (rt, g, node, st) \<Rightarrow> card (whites (color st))
                                      | Inr (rt, g, node, ns, st) \<Rightarrow> card (whites (color st)),
                           \<lambda>x. case x of Inl (rt, g, node, st) \<Rightarrow>
                                          (if dict_get (color st) node = Some WHITE then 0
                                           else 2 * length (get_or_empty g node) + 2)
                                      | Inr (rt, g, node, ns, st) \<Rightarrow> 2 * length ns + 1]", goal_cases)
  case 1
  then show ?case by simp
next
  case (2 rt g node st)
  show ?case
  proof (cases "dict_get (color st) node = Some WHITE")
    case True
    then have "node \<in> whites (color st)" by (simp add: whites_alt)
    then have "card (whites (color st) - {node}) < card (whites (color st))"
      by (rule card_Diff1_less [OF finite_whites])
    then show ?thesis by (simp add: whites_dict_set del: card_Diff_singleton card_Diff_singleton_if)
  next
    case False
    then have "whites (color st) - {node} = whites (color st)" by (auto simp: whites_alt)
    with False show ?thesis by (simp add: whites_dict_set)
  qed
next
  case 3
  then show ?case by simp
next
  case 4
  then show ?case by simp
next
  case (5 rt g node neighbor rest st x2 x y xa)
  have "whites (color (snd (dfs rt g neighbor (st\<lparr>parent := dict_set neighbor (Some node) (parent st)\<rparr>))))
          \<subseteq> whites (color st)"
    using 5 dfs_whites_partial(1)[of rt g neighbor "st\<lparr>parent := dict_set neighbor (Some node) (parent st)\<rparr>"]
    by simp
  with 5 have "card (whites (color y)) \<le> card (whites (color st))"
    by (metis card_mono finite_whites snd_conv)
  then show ?case by auto
next
  case (6 rt g node neighbor rest st x2 x y xa x2a)
  have "whites (color (snd (dfs rt g neighbor (st\<lparr>parent := dict_set neighbor (Some node) (parent st)\<rparr>))))
          \<subseteq> whites (color st)"
    using 6 dfs_whites_partial(1)[of rt g neighbor "st\<lparr>parent := dict_set neighbor (Some node) (parent st)\<rparr>"]
    by simp
  with 6 have "card (whites (color y)) \<le> card (whites (color st))"
    by (metis card_mono finite_whites snd_conv)
  then show ?case by auto
next
  case 7
  then show ?case by simp
qed


fun detect_loop :: "runtime \<Rightarrow> graph \<Rightarrow> string list \<Rightarrow> dfs_state \<Rightarrow> string list option option" where
  "detect_loop rt g [] st = Some None"
| "detect_loop rt g (node # nodes) st =
     (if dict_get (color st) node = Some WHITE
      then (case dfs rt g node st of
              (None, st') \<Rightarrow> None
            | (Some None, st') \<Rightarrow> detect_loop rt g nodes st'
            | (Some (Some cyc), st') \<Rightarrow>
                if cyc \<noteq> [] then Some (Some cyc) else detect_loop rt g nodes st')
      else detect_loop rt g nodes st)"

definition detect_cycle :: "runtime \<Rightarrow> graph \<Rightarrow> string list option option" where
  "detect_cycle rt g =
     detect_loop rt g (dict_keys g)
       \<lparr>color = map (\<lambda>(node, deps). (node, WHITE)) g,
        parent = map (\<lambda>(node, deps). (node, None)) g\<rparr>"

section \<open>dependency.py: get_execution_order\<close>

definition get_execution_order ::
  "runtime \<Rightarrow> Cell list \<Rightarrow> string \<Rightarrow> (string list \<times> string list option) option" where
  "get_execution_order rt cells changed_cell_id =
     (let g = build_dependency_graph rt cells
      in case detect_cycle rt g of
           None \<Rightarrow> None
         | Some cycle \<Rightarrow>
             if cycle \<noteq> None \<and> cycle \<noteq> Some [] then Some ([], cycle)
             else
               let downstream = get_downstream_cells rt g changed_cell_id;
                   to_execute = set_union downstream [changed_cell_id];
                   order = topological_sort rt g to_execute
               in Some (order, None))"

section \<open>executor.py\<close>

record ExecutionResult =
  result_cell_id :: string
  success :: bool
  result_stdout :: string
  result :: "string option"
  result_type :: string
  result_error :: "string option"
  result_error_traceback :: "string option"

definition ExecutionResult_init :: "string \<Rightarrow> bool \<Rightarrow> ExecutionResult" where
  "ExecutionResult_init i ok =
     \<lparr>result_cell_id = i, success = ok, result_stdout = [], result = None,
      result_type = ''text'', result_error = None, result_error_traceback = None\<rparr>"

text \<open>
  What stops a call without a return value: a \<open>KeyError\<close> on a dictionary, an exception of
  user code that is not an \<open>Exception\<close> (\<open>SystemExit\<close>, \<open>KeyboardInterrupt\<close>: the
  \<open>except Exception\<close> of the executor lets it through), or the loop of cycle
  reconstruction not ending.
\<close>

datatype failure = KeyError string | Escaped string | NoReturn

text \<open>
  The Python interpreter is a parameter.  \<open>py_exec src ns\<close> is \<open>exec(src, ns)\<close> with output
  redirected: how it ended, the namespace it left and the captured output.
  \<open>render_result\<close> is \<open>_render_result\<close>: the rendered text and its kind, or the message and
  trace of the exception it raised.
\<close>

datatype exec_end = Completed | Raised string string | Exits string

record 'v python =
  py_exec :: "string \<Rightarrow> (string \<rightharpoonup> 'v) \<Rightarrow> exec_end \<times> (string \<rightharpoonup> 'v) \<times> string"
  render_result :: "'v \<Rightarrow> (string \<times> string) + (string \<times> string)"

text \<open>
  \<open>isspace\<close> is \<open>str.isspace\<close> on one character, which is also the class \<open>\\s\<close> of the
  regular expressions on strings: tab to carriage return, the four separators from 28 to
  31, the space, and 133 and 160.  \<open>strip\<close> is \<open>str.strip()\<close>.
\<close>

definition isspace :: "char \<Rightarrow> bool" where
  "isspace c = (of_char c \<in> ({9..13} \<union> {28..32} \<union> {133, 160} :: nat set))"

definition lstrip :: "string \<Rightarrow> string" where
  "lstrip s = dropWhile isspace s"

definition rstrip :: "string \<Rightarrow> string" where
  "rstrip s = rev (dropWhile isspace (rev s))"

definition strip :: "string \<Rightarrow> string" where
  "strip s = rstrip (lstrip s)"

definition execute_python_cell ::
  "'v python \<Rightarrow> Cell \<Rightarrow> (string \<rightharpoonup> 'v) \<Rightarrow> (failure + ExecutionResult) \<times> (string \<rightharpoonup> 'v)" where
  "execute_python_cell py cell ns =
     (let src = strip (code cell)
      in if src = [] then (Inr (ExecutionResult_init (cid cell) True), ns)
         else
           case py_exec py src ns of
             (Completed, ns', out) \<Rightarrow>
               (case ns' ''_result'' of
                  None \<Rightarrow> (Inr ((ExecutionResult_init (cid cell) True)\<lparr>result_stdout := out\<rparr>), ns')
                | Some raw_result \<Rightarrow>
                    (case render_result py raw_result of
                       Inr (rendered, kind) \<Rightarrow>
                         (Inr ((ExecutionResult_init (cid cell) True)
                                 \<lparr>result_stdout := out, result := Some rendered, result_type := kind\<rparr>),
                          ns'(''_result'' := None))
                     | Inl (msg, tb) \<Rightarrow>
                         (Inr ((ExecutionResult_init (cid cell) False)
                                 \<lparr>result_stdout := out, result_error := Some msg,
                                  result_error_traceback := Some tb, result_type := ''error''\<rparr>),
                          ns'(''_result'' := None))))
           | (Raised msg tb, ns', out) \<Rightarrow>
               (Inr ((ExecutionResult_init (cid cell) False)
                       \<lparr>result_stdout := out, result_error := Some msg,
                        result_error_traceback := Some tb, result_type := ''error''\<rparr>),
                ns')
           | (Exits e, ns', out) \<Rightarrow> (Inl (Escaped e), ns'))"

definition execute_cell ::
  "'v python \<Rightarrow> Cell \<Rightarrow> (string \<rightharpoonup> 'v) \<Rightarrow> (failure + ExecutionResult) \<times> (string \<rightharpoonup> 'v)" where
  "execute_cell py cell ns =
     (if cell_type cell = ''sql''
      then (Inr ((ExecutionResult_init (cid cell) False)
                   \<lparr>result_error := Some ''SQL cells must be executed through the database module''\<rparr>),
            ns)
      else execute_python_cell py cell ns)"


section \<open>reactor.py\<close>

datatype CellStatus = IDLE | RUNNING | SUCCESS | ERROR | BLOCKED

record CellState =
  cell_id :: string
  status :: CellStatus
  cell_output :: "string option"
  output_type :: string
  stdout :: string
  error :: "string option"
  error_traceback :: "string option"
  blocked_by :: "string option"

definition CellState_init :: "string \<Rightarrow> CellState" where
  "CellState_init i =
     \<lparr>cell_id = i, status = IDLE, cell_output = None, output_type = ''text'', stdout = [],
      error = None, error_traceback = None, blocked_by = None\<rparr>"

text \<open>
  The Reactor is built around an executor object (\<open>Reactor(executor)\<close>), of which it calls
  \<open>execute_cell\<close> and \<open>reset_namespace\<close>; here the executor is a record of these two
  functions over its own state \<open>'ns\<close>, which the Reactor record carries as \<open>namespace\<close>.
  \<open>cell_states\<close> maps an identifier to its CellState object.  \<open>set_cells\<close> makes one object for
  each new identifier and no run replaces an object, so a reference to a CellState object is
  the identifier it is stored under: the lists of CellState objects that \<open>run_cell\<close> and
  \<open>run_all_cells\<close> return are lists of identifiers, to be read in the store of the Reactor
  that is returned with them (\<open>returned_states\<close>).  No status callback is installed
  (\<open>_status_callback\<close> is \<open>None\<close>, its initial value).
\<close>

record 'ns executor =
  executor_execute_cell :: "Cell \<Rightarrow> 'ns \<Rightarrow> (failure + ExecutionResult) \<times> 'ns"
  executor_reset_namespace :: "'ns \<Rightarrow> 'ns"

type_synonym 'ns sql_executor = "Cell \<Rightarrow> 'ns \<Rightarrow> ExecutionResult \<times> 'ns"

record 'ns Reactor =
  cells :: "Cell list"
  cell_states :: "string \<rightharpoonup> CellState"
  namespace :: 'ns

definition returned_states :: "'ns Reactor \<Rightarrow> string list \<Rightarrow> CellState option list" where
  "returned_states r ids = map (cell_states r) ids"

definition set_cells :: "Cell list \<Rightarrow> 'ns Reactor \<Rightarrow> 'ns Reactor" where
  "set_cells cs r =
     (let states1 = fold (\<lambda>cell m. if m (cid cell) = None
                                     then m(cid cell \<mapsto> CellState_init (cid cell)) else m)
                      cs (cell_states r);
          cell_ids = set (map cid cs)
      in r\<lparr>cells := cs, cell_states := (\<lambda>i. if i \<in> cell_ids then states1 i else None)\<rparr>)"

definition update_status :: "string \<Rightarrow> (CellState \<Rightarrow> CellState) \<Rightarrow> 'ns Reactor \<Rightarrow> 'ns Reactor" where
  "update_status i f r =
     (case cell_states r i of
        None \<Rightarrow> r
      | Some state \<Rightarrow> r\<lparr>cell_states := (cell_states r)(i \<mapsto> f state)\<rparr>)"

fun find_cell_by_id :: "Cell list \<Rightarrow> string \<Rightarrow> Cell option" where
  "find_cell_by_id [] i = None"
| "find_cell_by_id (cell # rest) i = (if cid cell = i then Some cell else find_cell_by_id rest i)"

fun str_join :: "string \<Rightarrow> string list \<Rightarrow> string" where
  "str_join sep [] = []"
| "str_join sep [x] = x"
| "str_join sep (x # y # ys) = x @ sep @ str_join sep (y # ys)"

definition dispatch ::
  "'ns executor \<Rightarrow> 'ns sql_executor option \<Rightarrow> Cell \<Rightarrow> string \<Rightarrow> 'ns \<Rightarrow> (failure + ExecutionResult) \<times> 'ns" where
  "dispatch ex sql_ex cell i ns =
     (if cell_type cell = ''sql''
      then (case sql_ex of
              Some f \<Rightarrow> (case f cell ns of (res, ns') \<Rightarrow> (Inr res, ns'))
            | None \<Rightarrow> (Inr ((ExecutionResult_init i False)
                               \<lparr>result_error := Some ''No database connection configured''\<rparr>), ns))
      else executor_execute_cell ex cell ns)"

text \<open>
  \<open>blocking_of\<close> is the loop that looks for a failed upstream cell, with the truth test
  \<open>if blocking_cell:\<close> applied to what it found: the first failed dependency in iteration
  order counts only when it is not the empty string.
\<close>

definition blocking_of :: "runtime \<Rightarrow> graph \<Rightarrow> string \<Rightarrow> pyset \<Rightarrow> string option" where
  "blocking_of rt g i failed_cells =
     (case find (\<lambda>dep. dep \<in> set failed_cells) (iter_set rt (get_or_empty g i)) of
        None \<Rightarrow> None
      | Some dep \<Rightarrow> if dep \<noteq> [] then Some dep else None)"

definition mark_blocked :: "string \<Rightarrow> CellState \<Rightarrow> CellState" where
  "mark_blocked blocking_cell s =
     s\<lparr>status := BLOCKED, blocked_by := Some blocking_cell,
       error := Some (''Blocked by failed cell: '' @ blocking_cell)\<rparr>"

definition mark_running :: "CellState \<Rightarrow> CellState" where
  "mark_running s = s\<lparr>status := RUNNING, blocked_by := None\<rparr>"

definition mark_result :: "ExecutionResult \<Rightarrow> CellState \<Rightarrow> CellState" where
  "mark_result exec_result s =
     (if success exec_result
      then s\<lparr>status := SUCCESS, cell_output := result exec_result,
             output_type := result_type exec_result, stdout := result_stdout exec_result,
             error := None, error_traceback := None, blocked_by := None\<rparr>
      else s\<lparr>status := ERROR, cell_output := None, stdout := result_stdout exec_result,
             error := result_error exec_result,
             error_traceback := result_error_traceback exec_result, blocked_by := None\<rparr>)"

fun run_loop ::
  "runtime \<Rightarrow> 'ns executor \<Rightarrow> 'ns sql_executor option \<Rightarrow> graph \<Rightarrow> string list \<Rightarrow>
   string list \<Rightarrow> pyset \<Rightarrow> 'ns Reactor \<Rightarrow> (failure + string list) \<times> 'ns Reactor" where
  "run_loop rt ex sql_ex g [] results failed_cells r = (Inr results, r)"
| "run_loop rt ex sql_ex g (i # order) results failed_cells r =
     (case find_cell_by_id (cells r) i of
        None \<Rightarrow> run_loop rt ex sql_ex g order results failed_cells r
      | Some cell \<Rightarrow>
          (case blocking_of rt g i failed_cells of
             Some blocking_cell \<Rightarrow>
               (let r1 = update_status i (mark_blocked blocking_cell) r
                in case cell_states r1 i of
                     None \<Rightarrow> (Inl (KeyError i), r1)
                   | Some state \<Rightarrow>
                       run_loop rt ex sql_ex g order (results @ [i]) (set_add i failed_cells) r1)
           | None \<Rightarrow>
               (let r1 = update_status i mark_running r
                in case dispatch ex sql_ex cell i (namespace r1) of
                     (Inl e, ns') \<Rightarrow> (Inl e, r1\<lparr>namespace := ns'\<rparr>)
                   | (Inr exec_result, ns') \<Rightarrow>
                       (let r2 = update_status i (mark_result exec_result) (r1\<lparr>namespace := ns'\<rparr>);
                            failed_cells' = (if success exec_result then failed_cells
                                             else set_add i failed_cells)
                        in case cell_states r2 i of
                             None \<Rightarrow> (Inl (KeyError i), r2)
                           | Some state \<Rightarrow>
                               run_loop rt ex sql_ex g order (results @ [i]) failed_cells' r2))))"

definition mark_cycle :: "string list \<Rightarrow> CellState \<Rightarrow> CellState" where
  "mark_cycle cycle s =
     s\<lparr>status := ERROR,
       error := Some (''Circular dependency detected: '' @ str_join '' -> '' cycle)\<rparr>"

definition run_cell ::
  "runtime \<Rightarrow> 'ns executor \<Rightarrow> 'ns sql_executor option \<Rightarrow> string \<Rightarrow> 'ns Reactor \<Rightarrow>
   (failure + string list) \<times> 'ns Reactor" where
  "run_cell rt ex sql_ex i r =
     (case get_execution_order rt (cells r) i of
        None \<Rightarrow> (Inl NoReturn, r)
      | Some (order, cycle) \<Rightarrow>
          (case cycle of
             Some (c # cs) \<Rightarrow>
               (let r1 = fold (\<lambda>j. update_status j (mark_cycle (c # cs))) (c # cs) r
                in case find (\<lambda>j. cell_states r1 j = None) (c # cs) of
                     Some j \<Rightarrow> (Inl (KeyError j), r1)
                   | None \<Rightarrow> (Inr (c # cs), r1))
           | _ \<Rightarrow> run_loop rt ex sql_ex (build_dependency_graph rt (cells r)) order [] [] r))"

fun run_all_roots ::
  "runtime \<Rightarrow> 'ns executor \<Rightarrow> 'ns sql_executor option \<Rightarrow> string list \<Rightarrow>
   string list \<Rightarrow> pyset \<Rightarrow> 'ns Reactor \<Rightarrow> (failure + string list) \<times> 'ns Reactor" where
  "run_all_roots rt ex sql_ex [] all_results executed r = (Inr all_results, r)"
| "run_all_roots rt ex sql_ex (root_id # roots) all_results executed r =
     (if root_id \<notin> set executed
      then (case run_cell rt ex sql_ex root_id r of
              (Inl e, r') \<Rightarrow> (Inl e, r')
            | (Inr results, r') \<Rightarrow>
                (case fold (\<lambda>j (all_results', executed').
                              case cell_states r' j of
                                None \<Rightarrow> (all_results', executed')
                              | Some state \<Rightarrow>
                                  if cell_id state \<notin> set executed'
                                  then (all_results' @ [j], set_add (cell_id state) executed')
                                  else (all_results', executed'))
                           results (all_results, executed) of
                   (all_results', executed') \<Rightarrow>
                     run_all_roots rt ex sql_ex roots all_results' executed' r'))
      else run_all_roots rt ex sql_ex roots all_results executed r)"

definition run_all_cells ::
  "runtime \<Rightarrow> 'ns executor \<Rightarrow> 'ns sql_executor option \<Rightarrow> 'ns Reactor \<Rightarrow>
   (failure + string list) \<times> 'ns Reactor" where
  "run_all_cells rt ex sql_ex r =
     (case cells r of
        [] \<Rightarrow> (Inr [], r)
      | first # rest \<Rightarrow>
          (let g = build_dependency_graph rt (cells r);
               root_cells = map cid (filter (\<lambda>c. get_or_empty g (cid c) = []) (cells r));
               root_cells' = (if root_cells = [] then [cid first] else root_cells)
           in run_all_roots rt ex sql_ex root_cells' [] [] r))"

definition reset_state :: "CellState \<Rightarrow> CellState" where
  "reset_state s =
     s\<lparr>status := IDLE, cell_output := None, stdout := [], error := None,
       error_traceback := None, blocked_by := None\<rparr>"

definition reset :: "'ns executor \<Rightarrow> 'ns Reactor \<Rightarrow> 'ns Reactor" where
  "reset ex r =
     r\<lparr>namespace := executor_reset_namespace ex (namespace r),
       cell_states := (\<lambda>i. map_option reset_state (cell_states r i))\<rparr>"


section \<open>Facts about the set and dictionary operations\<close>

lemma set_set_add [simp]: "set (set_add x s) = insert x (set s)"
  by (auto simp: set_add_def)

lemma set_set_union [simp]: "set (set_union s t) = set s \<union> set t"
  unfolding set_union_def by (induction t arbitrary: s) auto

lemma set_set_diff [simp]: "set (set_diff s t) = set s - set t"
  by (auto simp: set_diff_def)

lemma set_set_inter [simp]: "set (set_inter s t) = set s \<inter> set t"
  by (auto simp: set_inter_def)

lemma dict_keys_dict_set_list:
  "dict_keys (dict_set k v d) = (if k \<in> set (dict_keys d) then dict_keys d else dict_keys d @ [k])"
  by (induction d) (force simp: dict_keys_def)+

lemma dict_keys_dict_set: "set (dict_keys (dict_set k v d)) = insert k (set (dict_keys d))"
  by (auto simp: dict_keys_dict_set_list)

lemma dict_get_None_iff: "dict_get d k = None \<longleftrightarrow> k \<notin> set (dict_keys d)"
  by (simp add: dict_get_def dict_keys_def map_of_eq_None_iff)

lemma analyses_of_keys:
  "set (dict_keys (fold (\<lambda>cell d. dict_set (cid cell) (f cell) d) cs d0))
     = set (dict_keys d0) \<union> cid ` set cs"
  by (induction cs arbitrary: d0) (auto simp: dict_keys_dict_set)

lemma analyses_of_defined:
  "cell \<in> set cs \<Longrightarrow> dict_get (analyses_of rt cs) (cid cell) \<noteq> None"
  by (simp add: dict_get_None_iff analyses_of_def analyses_of_keys)

section \<open>Concrete notebooks\<close>

text \<open>
  \<open>demo_parse\<close> gives the trees that \<open>ast.parse\<close> builds for the sources used below (the
  module node with its statements; constants and operators are leaves without names) and
  \<open>SyntaxError\<close> for every other string.  \<open>demo_runtime\<close> iterates sets in insertion order.
\<close>

definition demo_parse :: "string \<Rightarrow> ast option" where
  "demo_parse src =
     (if src = ''counter = 0'' then
        Some (Node ''Module'' [Node ''Assign'' [Name ''counter'' Store, Node ''Constant'' []]])
      else if src = ''counter += 1'' then
        Some (Node ''Module'' [AugAssign (Name ''counter'' Store) (Node ''Constant'' [])])
      else if src = ''x = 10'' then
        Some (Node ''Module'' [Node ''Assign'' [Name ''x'' Store, Node ''Constant'' []]])
      else if src = ''y = 20'' then
        Some (Node ''Module'' [Node ''Assign'' [Name ''y'' Store, Node ''Constant'' []]])
      else if src = ''z = x + y'' then
        Some (Node ''Module'' [Node ''Assign'' [Name ''z'' Store,
                Node ''BinOp'' [Name ''x'' Load, Node ''Add'' [], Name ''y'' Load]]])
      else if src = ''b = a'' then
        Some (Node ''Module'' [Node ''Assign'' [Name ''b'' Store, Name ''a'' Load]])
      else if src = ''a = b'' then
        Some (Node ''Module'' [Node ''Assign'' [Name ''a'' Store, Name ''b'' Load]])
      else None)"

definition demo_runtime :: runtime where
  "demo_runtime = \<lparr>ast_parse = demo_parse, set_iter = insertion_order\<rparr>"

lemma iterate_insertion_order [simp]: "iterate insertion_order xs = xs"
  by transfer simp

definition python_cell :: "string \<Rightarrow> string \<Rightarrow> Cell" where
  "python_cell i src = \<lparr>cid = i, code = src, cell_type = ''python'', as_var = None\<rparr>"

definition sql_cell :: "string \<Rightarrow> string \<Rightarrow> string option \<Rightarrow> Cell" where
  "sql_cell i src v = \<lparr>cid = i, code = src, cell_type = ''sql'', as_var = v\<rparr>"

text \<open>
  An executor that records the identifier of every cell it is asked to execute and reports
  success: its state is the list of the executions so far.
\<close>

definition log_executor :: "string list executor" where
  "log_executor =
     \<lparr>executor_execute_cell =
        (\<lambda>cell ns. (Inr (ExecutionResult_init (cid cell) True), ns @ [cid cell])),
      executor_reset_namespace = (\<lambda>ns. [])\<rparr>"

definition Reactor_init :: "'ns \<Rightarrow> 'ns Reactor" where
  "Reactor_init ns = \<lparr>cells = [], cell_states = Map.empty, namespace = ns\<rparr>"

definition counter_cells :: "Cell list" where
  "counter_cells = [python_cell ''c1'' ''counter = 0'', python_cell ''c2'' ''counter += 1'']"

definition diamond_cells :: "Cell list" where
  "diamond_cells =
     [python_cell ''c1'' ''x = 10'', python_cell ''c2'' ''y = 20'', python_cell ''c3'' ''z = x + y'']"

definition query_cells :: "Cell list" where
  "query_cells = [sql_cell ''c1'' ''SELECT 1'' (Some ''a''), python_cell ''c2'' ''b = a'']"

definition cyclic_cells :: "Cell list" where
  "cyclic_cells = [python_cell ''c1'' ''a = b'', python_cell ''c2'' ''b = a'']"

lemmas analysis_defs =
  build_dependency_graph_def analyses_of_def var_to_cell_of_def dependencies_of_def
  python_cell_def sql_cell_def analyze_cell_def dict_get_def analyze_python_code_def
  demo_runtime_def demo_parse_def VariableVisitor_init_def visit_AugAssign_target_def
  write_name_def set_add_def set_union_def set_diff_def common_builtins_def iter_set_def

lemmas order_defs =
  get_execution_order_def detect_cycle_def dict_keys_def get_or_empty_def
  get_downstream_cells_def invert_graph_def topological_sort_def subgraph_of_def set_inter_def

lemmas reactor_defs =
  run_all_cells_def run_cell_def set_cells_def Reactor_init_def update_status_def
  blocking_of_def dispatch_def log_executor_def mark_running_def mark_result_def
  mark_blocked_def mark_cycle_def ExecutionResult_init_def CellState_init_def


section \<open>The analyzer\<close>

text \<open>
  C5.  The claim as stated: for every data-query cell, \<open>analyze\<close> returns no reads and, when
  no output-binding name is configured, exactly the write \<open>_query_<id>\<close>.  The code derives
  the synthetic name with the prefix \<open>_sql_\<close>: for the cell \<open>sql1\<close> without a name the write
  set is not \<open>{_query_sql1}\<close>.
\<close>

theorem analyze_sql_cell_query_name_counterexample:
  "set (analysis_writes (analyze_cell demo_runtime (sql_cell ''sql1'' ''SELECT 1'' None)))
     \<noteq> {''_query_sql1''}"
  by (simp add: analyze_cell_def sql_cell_def)

text \<open>
  C5, amended.  For every data-query cell the reads are empty, and when no output-binding
  name is configured (\<open>as_var\<close> is \<open>None\<close>, or the empty string, which Python's truth test
  treats alike) the write set is exactly \<open>{_sql_<id>}\<close>.
\<close>

theorem analyze_sql_cell:
  "cell_type cell = ''sql'' \<Longrightarrow>
     analysis_reads (analyze_cell rt cell) = [] \<and>
     (as_var cell = None \<or> as_var cell = Some [] \<longrightarrow>
        set (analysis_writes (analyze_cell rt cell)) = {''_sql_'' @ cid cell})"
  by (auto simp: analyze_cell_def)

theorem analyze_sql_cell_witness:
  "cell_type (sql_cell ''sql1'' ''SELECT 1'' None) = ''sql'' \<and>
   analysis_reads (analyze_cell demo_runtime (sql_cell ''sql1'' ''SELECT 1'' None)) = [] \<and>
   set (analysis_writes (analyze_cell demo_runtime (sql_cell ''sql1'' ''SELECT 1'' None)))
     = {''_sql_sql1''}"
  using analyze_sql_cell [of "sql_cell ''sql1'' ''SELECT 1'' None" demo_runtime]
  by (simp add: sql_cell_def)

text \<open>
  The exclusion set as the specification enumerates it, and what the visitor has collected
  for a source text: the visitor after the walk of the parsed tree, or the fresh visitor
  when the source does not parse (nothing is collected then).
\<close>

definition normative_exclusion_set :: "string set" where
  "normative_exclusion_set =
    {''print'', ''len'', ''range'', ''str'', ''int'', ''float'', ''list'', ''dict'', ''set'',
     ''tuple'', ''bool'', ''type'', ''isinstance'', ''hasattr'', ''getattr'', ''setattr'',
     ''open'', ''file'', ''input'', ''output'', ''sum'', ''min'', ''max'', ''abs'', ''round'',
     ''sorted'', ''reversed'', ''enumerate'', ''zip'', ''map'', ''filter'', ''any'', ''all'',
     ''None'', ''True'', ''False'', ''Exception'', ''ValueError'', ''TypeError'', ''KeyError'',
     ''__name__'', ''__file__'', ''__doc__''}"

definition collected :: "runtime \<Rightarrow> string \<Rightarrow> VariableVisitor" where
  "collected rt src =
     (case ast_parse rt src of
        None \<Rightarrow> VariableVisitor_init
      | Some tree \<Rightarrow> visit tree VariableVisitor_init)"

lemma common_builtins_normative: "set common_builtins = normative_exclusion_set"
  unfolding common_builtins_def normative_exclusion_set_def by simp

text \<open>
  C7.  For every code cell, the final read set of the analyzer is
  (collected reads - exclusion set - collected writes) \<union> required reads, the exclusion set
  being the one the specification enumerates.
\<close>

theorem analyzer_final_reads:
  "cell_type cell \<noteq> ''sql'' \<Longrightarrow>
     set (analysis_reads (analyze_cell rt cell))
       = (set (reads (collected rt (code cell))) - normative_exclusion_set
            - set (writes (collected rt (code cell))))
         \<union> set (required_reads (collected rt (code cell)))"
  by (simp add: analyze_cell_def analyze_python_code_def collected_def Let_def
        common_builtins_normative VariableVisitor_init_def split: option.splits)

theorem analyzer_final_reads_witness:
  "cell_type (python_cell ''c2'' ''counter += 1'') \<noteq> ''sql'' \<and>
   set (analysis_reads (analyze_cell demo_runtime (python_cell ''c2'' ''counter += 1'')))
     = (set (reads (collected demo_runtime ''counter += 1'')) - normative_exclusion_set
          - set (writes (collected demo_runtime ''counter += 1'')))
       \<union> set (required_reads (collected demo_runtime ''counter += 1'')) \<and>
   required_reads (collected demo_runtime ''counter += 1'') = [''counter'']"
  using analyzer_final_reads [of "python_cell ''c2'' ''counter += 1''" demo_runtime]
  by (simp add: python_cell_def collected_def demo_runtime_def demo_parse_def
        VariableVisitor_init_def visit_AugAssign_target_def write_name_def set_add_def)

section \<open>Runs of concrete notebooks\<close>

lemma counter_graph:
  "build_dependency_graph demo_runtime counter_cells = [(''c1'', []), (''c2'', [])]"
  by (simp add: analysis_defs counter_cells_def)

lemma counter_reads:
  "analysis_reads (analyze_cell demo_runtime (python_cell ''c2'' ''counter += 1'')) = [''counter'']"
  by (simp add: analysis_defs)

text \<open>
  C1.  The notebook \<open>c1: counter = 0\<close>, \<open>c2: counter += 1\<close>.  The analyzer keeps \<open>counter\<close> as
  a read of \<open>c2\<close>, but the graph builder resolves \<open>counter\<close> to its last writer, which is
  \<open>c2\<close> itself, and drops the edge as a self-dependency: the graph has no edge, and
  \<open>run(c1)\<close> executes \<open>c1\<close> alone.
\<close>

theorem run_counter_executes_c1_only:
  "fst (run_cell demo_runtime log_executor None ''c1'' (set_cells counter_cells (Reactor_init [])))
     = Inr [''c1''] \<and>
   namespace (snd (run_cell demo_runtime log_executor None ''c1''
                     (set_cells counter_cells (Reactor_init [])))) = [''c1'']"
  by (simp add: reactor_defs analysis_defs order_defs counter_cells_def)

text \<open>
  C2.  The notebook \<open>c1: x = 10\<close>, \<open>c2: y = 20\<close>, \<open>c3: z = x + y\<close> has the two roots \<open>c1\<close> and
  \<open>c2\<close>.  \<open>run_all_cells\<close> runs each root with its downstream cells: \<open>c3\<close> is handed to the
  executor twice, the first time before \<open>c2\<close>.
\<close>

theorem run_all_diamond_executes_c3_twice:
  "namespace (snd (run_all_cells demo_runtime log_executor None
                     (set_cells diamond_cells (Reactor_init []))))
     = [''c1'', ''c3'', ''c2'', ''c3'']"
  by (simp add: reactor_defs analysis_defs order_defs diamond_cells_def)

definition blocked_then_cycle :: "string list Reactor" where
  "blocked_then_cycle =
     snd (run_cell demo_runtime log_executor None ''c1''
            (set_cells cyclic_cells
               (snd (run_cell demo_runtime log_executor None ''c1''
                       (set_cells query_cells (Reactor_init []))))))"

lemma after_first_run:
  "map_option (\<lambda>s. (status s, blocked_by s))
     (cell_states (snd (run_cell demo_runtime log_executor None ''c1''
                       (set_cells query_cells (Reactor_init [])))) ''c2'')
     = Some (BLOCKED, Some ''c1'')"
  by (simp add: reactor_defs analysis_defs order_defs query_cells_def)

text \<open>
  C3.  First run: the query cell \<open>c1\<close> fails (no query executor is given) and \<open>c2\<close>, which
  reads its output, is blocked by it.  Then the two cells are edited into a cycle and \<open>c1\<close>
  is run again: the cycle branch sets \<open>status\<close> and \<open>error\<close> only, so \<open>c2\<close> is in error with
  \<open>blocked_by\<close> still set.
\<close>

theorem cycle_error_keeps_blocked_by:
  "map_option (\<lambda>s. (status s, blocked_by s)) (cell_states blocked_then_cycle ''c2'')
     = Some (ERROR, Some ''c1'')"
  by (simp add: blocked_then_cycle_def reactor_defs analysis_defs order_defs query_cells_def cyclic_cells_def)

section \<open>The executor and the sentinel binding\<close>










text \<open>
  On the success path the binding is removed before the result is returned.
\<close>

lemma execute_cell_success_pops_result:
  assumes "cell_type cell \<noteq> ''sql''"
    and "strip (code cell) \<noteq> []"
    and "py_exec py (strip (code cell)) ns = (Completed, ns', out)"
  shows "snd (execute_cell py cell ns) ''_result'' = None"
  using assms
  by (auto simp: execute_cell_def execute_python_cell_def Let_def split: option.splits sum.splits)


section \<open>The downstream closure and its source\<close>

text \<open>
  \<open>depends g\<close> is the edge relation of the graph: \<open>(i, dep)\<close> when the cell \<open>i\<close> has \<open>dep\<close> in
  its upstream set.  An identifier lies on a cycle when it reaches itself along one or more
  edges.  \<open>inverts g ds\<close> says that the dictionary \<open>ds\<close> only lists, under a key, cells that
  depend on the key.
\<close>

definition depends :: "graph \<Rightarrow> (string \<times> string) set" where
  "depends g = {(i, dep). \<exists>deps. (i, deps) \<in> set g \<and> dep \<in> set deps}"

definition inverts :: "graph \<Rightarrow> graph \<Rightarrow> bool" where
  "inverts g ds = (\<forall>k s x. dict_get ds k = Some s \<and> x \<in> set s \<longrightarrow> (x, k) \<in> depends g)"

lemma inverts_add:
  assumes "inverts g ds" and "(i, dep) \<in> depends g"
  shows "inverts g (case dict_get ds dep of Some s \<Rightarrow> dict_set dep (set_add i s) ds | None \<Rightarrow> ds)"
  using assms
  by (auto simp: inverts_def dict_get_dict_set split: option.splits if_splits)

lemma inverts_inner:
  assumes "inverts g ds" and "\<forall>dep \<in> set xs. (i, dep) \<in> depends g"
  shows "inverts g (fold (\<lambda>dep ds'. case dict_get ds' dep of
                                 Some s \<Rightarrow> dict_set dep (set_add i s) ds'
                               | None \<Rightarrow> ds') xs ds)"
  using assms
proof (induction xs arbitrary: ds)
  case Nil
  then show ?case by simp
next
  case (Cons x xs)
  have "inverts g (case dict_get ds x of Some s \<Rightarrow> dict_set x (set_add i s) ds | None \<Rightarrow> ds)"
    using Cons.prems by (intro inverts_add) auto
  then show ?case using Cons by simp
qed

lemma inverts_outer:
  assumes "inverts g ds" and "set h \<subseteq> set g"
  shows "inverts g (fold (\<lambda>(i, deps) ds.
             fold (\<lambda>dep ds'. case dict_get ds' dep of
                                 Some s \<Rightarrow> dict_set dep (set_add i s) ds'
                               | None \<Rightarrow> ds')
                  (iter_set rt deps) ds) h ds)"
  using assms
proof (induction h arbitrary: ds)
  case Nil
  then show ?case by simp
next
  case (Cons p h)
  obtain i deps where p: "p = (i, deps)" by (cases p)
  have "\<forall>dep \<in> set (iter_set rt deps). (i, dep) \<in> depends g"
    using Cons.prems p by (auto simp: depends_def)
  then have "inverts g (fold (\<lambda>dep ds'. case dict_get ds' dep of
                                 Some s \<Rightarrow> dict_set dep (set_add i s) ds'
                               | None \<Rightarrow> ds') (iter_set rt deps) ds)"
    using Cons.prems(1) by (rule inverts_inner[rotated])
  then show ?case using Cons p by simp
qed

lemma inverts_empty: "inverts g (map (\<lambda>(i, deps). (i, [])) g)"
  by (auto simp: inverts_def dict_get_def dest!: map_of_SomeD)

lemma inverts_invert_graph: "inverts g (invert_graph rt g)"
  unfolding invert_graph_def by (rule inverts_outer[OF inverts_empty]) simp

lemma get_or_empty_inverts:
  "inverts g ds \<Longrightarrow> x \<in> set (get_or_empty ds k) \<Longrightarrow> (x, k) \<in> depends g"
  unfolding inverts_def get_or_empty_def by (cases "dict_get ds k") auto

lemma bfs_reaches:
  assumes "inverts g ds"
    and "\<forall>x \<in> set queue. (x, i) \<in> (depends g)\<^sup>+"
    and "\<forall>x \<in> set res. (x, i) \<in> (depends g)\<^sup>+"
  shows "\<forall>x \<in> set (bfs rt ds queue res). (x, i) \<in> (depends g)\<^sup>+"
  using assms
proof (induction rt ds queue res rule: bfs.induct)
  case (1 rt ds res)
  then show ?case by simp
next
  case (2 rt ds current queue res)
  have cur: "(current, i) \<in> (depends g)\<^sup>+" using "2.prems"(2) by simp
  have rest: "\<forall>x \<in> set queue. (x, i) \<in> (depends g)\<^sup>+" using "2.prems"(2) by simp
  show ?case
  proof (cases "current \<in> set res")
    case True
    have "\<forall>x \<in> set (bfs rt ds queue res). (x, i) \<in> (depends g)\<^sup>+"
      using True "2.prems"(1) rest "2.prems"(3) by (intro "2.IH"(2)) auto
    with True show ?thesis by simp
  next
    case False
    have new: "\<forall>x \<in> set (get_or_empty ds current). (x, i) \<in> (depends g)\<^sup>+"
      using get_or_empty_inverts[OF "2.prems"(1)] cur by (meson trancl_into_trancl2)
    have "\<forall>x \<in> set (bfs rt ds (queue @ iter_set rt (get_or_empty ds current)) (set_add current res)).
            (x, i) \<in> (depends g)\<^sup>+"
    proof (rule "2.IH"(1)[OF False "2.prems"(1)])
      show "\<forall>x\<in>set (queue @ iter_set rt (get_or_empty ds current)). (x, i) \<in> (depends g)\<^sup>+"
        using rest new by auto
      show "\<forall>x\<in>set (set_add current res). (x, i) \<in> (depends g)\<^sup>+"
        using cur "2.prems"(3) by auto
    qed
    with False show ?thesis by simp
  qed
qed

text \<open>
  C4.  The claim as stated: \<open>downstream(graph, id)\<close> never contains \<open>id\<close>, also when the
  graph has a cycle through \<open>id\<close>.  The breadth-first search has no test for the source: in
  the graph \<open>{a: {b}, b: {a}}\<close> the downstream set of \<open>a\<close> contains \<open>a\<close>.
\<close>

theorem downstream_contains_source_counterexample:
  "''a'' \<in> set (get_downstream_cells demo_runtime [(''a'', [''b'']), (''b'', [''a''])] ''a'')"
  by (simp add: get_downstream_cells_def invert_graph_def dict_get_def get_or_empty_def
        set_add_def iter_set_def demo_runtime_def)

text \<open>
  C4, amended.  For every dependency graph and every identifier that does not lie on a
  cycle of the graph, the downstream set of the identifier does not contain it.
\<close>

theorem downstream_excludes_source:
  "(i, i) \<notin> (depends g)\<^sup>+ \<Longrightarrow> i \<notin> set (get_downstream_cells rt g i)"
proof
  assume nc: "(i, i) \<notin> (depends g)\<^sup>+" and mem: "i \<in> set (get_downstream_cells rt g i)"
  have inv: "inverts g (invert_graph rt g)" by (rule inverts_invert_graph)
  have "\<forall>x \<in> set (iter_set rt (get_or_empty (invert_graph rt g) i)). (x, i) \<in> (depends g)\<^sup>+"
    using get_or_empty_inverts[OF inv] by auto
  then have "\<forall>x \<in> set (get_downstream_cells rt g i). (x, i) \<in> (depends g)\<^sup>+"
    unfolding get_downstream_cells_def Let_def
    by (intro bfs_reaches[OF inv]) auto
  with mem nc show False by blast
qed

lemma depends_chain: "depends [(''a'', []), (''b'', [''a''])] = {(''b'', ''a'')}"
  by (auto simp: depends_def)

theorem downstream_excludes_source_witness:
  "(''a'', ''a'') \<notin> (depends [(''a'', []), (''b'', [''a''])])\<^sup>+ \<and>
   ''a'' \<notin> set (get_downstream_cells demo_runtime [(''a'', []), (''b'', [''a''])] ''a'') \<and>
   get_downstream_cells demo_runtime [(''a'', []), (''b'', [''a''])] ''a'' = [''b'']"
proof -
  have nc: "(''a'', ''a'') \<notin> (depends [(''a'', []), (''b'', [''a''])])\<^sup>+"
    by (auto simp: depends_chain dest: tranclD)
  have "get_downstream_cells demo_runtime [(''a'', []), (''b'', [''a''])] ''a'' = [''b'']"
    by (simp add: get_downstream_cells_def invert_graph_def dict_get_def get_or_empty_def
          set_add_def iter_set_def demo_runtime_def)
  with nc downstream_excludes_source[OF nc, of demo_runtime] show ?thesis by simp
qed


section \<open>Running an identifier that is not in the cell list\<close>

lemma build_graph_fold_keys:
  "set (dict_keys (fold (\<lambda>cell g. case dict_get an (cid cell) of
                                       None \<Rightarrow> g
                                     | Some analysis \<Rightarrow> dict_set (cid cell) (f cell analysis) g) cs g0))
     \<subseteq> set (dict_keys g0) \<union> cid ` set cs"
proof (induction cs arbitrary: g0)
  case Nil
  then show ?case by simp
next
  case (Cons c cs)
  show ?case
  proof (cases "dict_get an (cid c)")
    case None
    then show ?thesis using Cons.IH[of g0] by auto
  next
    case (Some a)
    then show ?thesis using Cons.IH[of "dict_set (cid c) (f c a) g0"]
      by (auto simp: dict_keys_dict_set)
  qed
qed

lemma build_dependency_graph_keys:
  "set (dict_keys (build_dependency_graph rt cs)) \<subseteq> cid ` set cs"
  unfolding build_dependency_graph_def Let_def
  using build_graph_fold_keys[of _ _ cs "[]"] by (simp add: dict_keys_def)

lemma dict_keys_dict_set_present:
  "dict_get d k = Some s \<Longrightarrow> dict_keys (dict_set k v d) = dict_keys d"
  by (simp add: dict_keys_dict_set_list dict_get_Some_key)

lemma invert_inner_keys:
  "dict_keys (fold (\<lambda>dep ds'. case dict_get ds' dep of
                                 Some s \<Rightarrow> dict_set dep (set_add i s) ds'
                               | None \<Rightarrow> ds') xs ds) = dict_keys ds"
  by (induction xs arbitrary: ds) (auto simp: dict_keys_dict_set_present split: option.splits)

lemma invert_outer_keys:
  "dict_keys (fold (\<lambda>(i, deps) ds.
             fold (\<lambda>dep ds'. case dict_get ds' dep of
                                 Some s \<Rightarrow> dict_set dep (set_add i s) ds'
                               | None \<Rightarrow> ds')
                  (iter_set rt deps) ds) h ds) = dict_keys ds"
  by (induction h arbitrary: ds) (auto simp: invert_inner_keys)

lemma invert_graph_keys: "dict_keys (invert_graph rt g) = dict_keys g"
  by (simp add: invert_graph_def invert_outer_keys) (simp add: dict_keys_def case_prod_unfold)

lemma get_or_empty_absent: "k \<notin> set (dict_keys d) \<Longrightarrow> get_or_empty d k = []"
  using dict_get_None_iff[of d k] by (simp add: get_or_empty_def)

lemma downstream_of_unknown:
  "i \<notin> set (dict_keys g) \<Longrightarrow> get_downstream_cells rt g i = []"
  by (simp add: get_downstream_cells_def get_or_empty_absent invert_graph_keys)

lemma iter_set_single [simp]: "iter_set rt [x] = [x]"
  using mset_iter_set[of rt "[x]"] by simp

lemma subgraph_of_unknown:
  "i \<notin> set (dict_keys g) \<Longrightarrow> subgraph_of g [i] = []"
  by (force simp: subgraph_of_def dict_keys_def filter_empty_conv)

lemma topological_sort_unknown:
  "i \<notin> set (dict_keys g) \<Longrightarrow> topological_sort rt g [i] = [i]"
  by (simp add: topological_sort_def subgraph_of_unknown get_or_empty_def dict_get_def)

lemma find_cell_by_id_None: "i \<notin> cid ` set cs \<Longrightarrow> find_cell_by_id cs i = None"
  by (induction cs) auto

text \<open>
  C8.  The claim as stated: for every cell list, \<open>run\<close> with an identifier that is not in
  the list returns an empty list and changes no CellState.  \<open>get_execution_order\<close> looks for
  a cycle before it looks at the identifier: on the two cells of a cycle, running the unknown
  identifier \<open>zz\<close> returns the states of both cells and puts them in error.
\<close>

theorem run_unknown_cell_with_cycle_counterexample:
  "fst (run_cell demo_runtime log_executor None ''zz'' (set_cells cyclic_cells (Reactor_init [])))
     = Inr [''c1'', ''c2''] \<and>
   map_option status
     (cell_states (snd (run_cell demo_runtime log_executor None ''zz''
                          (set_cells cyclic_cells (Reactor_init [])))) ''c1'')
     = Some ERROR \<and>
   map_option status (cell_states (set_cells cyclic_cells (Reactor_init [])) ''c1'') = Some IDLE"
  by (simp add: reactor_defs analysis_defs order_defs cyclic_cells_def)

text \<open>
  C8, amended.  For every cell list in whose dependency graph \<open>detect_cycle\<close> finds no cycle
  and every identifier that is not in the list, \<open>run\<close> with that identifier returns the
  empty list without an error and leaves the Reactor (cell states and namespace) as it was.
\<close>

theorem run_unknown_cell:
  assumes "i \<notin> cid ` set (cells r)"
    and "detect_cycle rt (build_dependency_graph rt (cells r)) = Some None"
  shows "run_cell rt ex sql_ex i r = (Inr [], r)"
proof -
  have key: "i \<notin> set (dict_keys (build_dependency_graph rt (cells r)))"
    using assms(1) build_dependency_graph_keys[of rt "cells r"] by blast
  have "get_execution_order rt (cells r) i = Some ([i], None)"
    using assms(2)
    by (simp add: get_execution_order_def Let_def downstream_of_unknown[OF key]
          set_union_def set_add_def topological_sort_unknown[OF key])
  then show ?thesis
    by (simp add: run_cell_def find_cell_by_id_None[OF assms(1)])
qed

theorem run_unknown_cell_witness:
  "''zz'' \<notin> cid ` set (cells (set_cells diamond_cells (Reactor_init []))) \<and>
   detect_cycle demo_runtime
     (build_dependency_graph demo_runtime (cells (set_cells diamond_cells (Reactor_init []))))
     = Some None \<and>
   run_cell demo_runtime log_executor None ''zz'' (set_cells diamond_cells (Reactor_init []))
     = (Inr [], set_cells diamond_cells (Reactor_init []))"
proof -
  have a: "''zz'' \<notin> cid ` set (cells (set_cells diamond_cells (Reactor_init [])))"
    by (simp add: set_cells_def diamond_cells_def python_cell_def)
  have b: "detect_cycle demo_runtime
     (build_dependency_graph demo_runtime (cells (set_cells diamond_cells (Reactor_init []))))
     = Some None"
    by (simp add: set_cells_def analysis_defs order_defs diamond_cells_def)
  show ?thesis using a b run_unknown_cell[OF a b, of log_executor None] by simp
qed



section \<open>Cycle detection finds a cycle when there is one\<close>

definition keyed :: "graph \<Rightarrow> dfs_state \<Rightarrow> bool" where
  "keyed g st = (dict_keys (color st) = dict_keys g \<and> dict_keys (parent st) = dict_keys g)"

fun chain :: "graph \<Rightarrow> (string, string option) dict \<Rightarrow> string list \<Rightarrow> bool" where
  "chain g par [] = True"
| "chain g par [z] = (dict_get par z = Some None)"
| "chain g par (x # y # r) =
     (dict_get par x = Some (Some y) \<and> x \<in> set (get_or_empty g y) \<and> chain g par (y # r))"

definition gray_path :: "graph \<Rightarrow> dfs_state \<Rightarrow> string list \<Rightarrow> bool" where
  "gray_path g st stack =
     (distinct stack \<and> (\<forall>n. dict_get (color st) n = Some GRAY \<longleftrightarrow> n \<in> set stack) \<and>
      chain g (parent st) stack)"

definition key_edges :: "graph \<Rightarrow> (string \<times> string) set" where
  "key_edges g = {(i, d). d \<in> set (get_or_empty g i) \<and> d \<in> set (dict_keys g)}"

definition black_closed :: "graph \<Rightarrow> dfs_state \<Rightarrow> bool" where
  "black_closed g st =
     (\<forall>b n. dict_get (color st) b = Some BLACK \<and> (b, n) \<in> key_edges g
            \<longrightarrow> dict_get (color st) n = Some BLACK)"

definition black_acyclic :: "graph \<Rightarrow> dfs_state \<Rightarrow> bool" where
  "black_acyclic g st =
     (\<forall>b. dict_get (color st) b = Some BLACK \<longrightarrow> (b, b) \<notin> (key_edges g)\<^sup>+)"

definition fresh_whites :: "dfs_state \<Rightarrow> string set \<Rightarrow> bool" where
  "fresh_whites st X =
     (\<forall>n. dict_get (color st) n = Some WHITE \<and> n \<notin> X \<longrightarrow> dict_get (parent st) n = Some None)"

definition dfs_inv :: "graph \<Rightarrow> dfs_state \<Rightarrow> string list \<Rightarrow> bool" where
  "dfs_inv g st stack =
     (keyed g st \<and> gray_path g st stack \<and> black_closed g st \<and> black_acyclic g st)"

definition blacks_kept :: "dfs_state \<Rightarrow> dfs_state \<Rightarrow> bool" where
  "blacks_kept st st' =
     (\<forall>n. dict_get (color st) n = Some BLACK \<longrightarrow> dict_get (color st') n = Some BLACK)"

fun linked :: "graph \<Rightarrow> string list \<Rightarrow> bool" where
  "linked g [] = True"
| "linked g [x] = True"
| "linked g (x # y # r) = (x \<in> set (get_or_empty g y) \<and> linked g (y # r))"

definition is_cycle :: "graph \<Rightarrow> string list \<Rightarrow> bool" where
  "is_cycle g cyc = (cyc \<noteq> [] \<and> linked g cyc \<and> last cyc \<in> set (get_or_empty g (hd cyc)))"

lemma keyed_color_None: "keyed g st \<Longrightarrow> dict_get (color st) n = None \<longleftrightarrow> n \<notin> set (dict_keys g)"
  by (simp add: keyed_def dict_get_None_iff)

lemma keyed_parent_None: "keyed g st \<Longrightarrow> dict_get (parent st) n = None \<longleftrightarrow> n \<notin> set (dict_keys g)"
  by (simp add: keyed_def dict_get_None_iff)

lemma dict_keys_dict_set_key:
  "k \<in> set (dict_keys d) \<Longrightarrow> dict_keys (dict_set k v d) = dict_keys d"
  by (simp add: dict_keys_dict_set_list)

lemma keyed_set_color:
  "keyed g st \<Longrightarrow> n \<in> set (dict_keys g) \<Longrightarrow> keyed g (st\<lparr>color := dict_set n c (color st)\<rparr>)"
  by (simp add: keyed_def dict_keys_dict_set_key)

lemma keyed_set_parent:
  "keyed g st \<Longrightarrow> n \<in> set (dict_keys g) \<Longrightarrow> keyed g (st\<lparr>parent := dict_set n p (parent st)\<rparr>)"
  by (simp add: keyed_def dict_keys_dict_set_key)

lemma chain_tl: "chain g par (x # s) \<Longrightarrow> chain g par s"
  by (cases s) auto

lemma chain_update: "n \<notin> set s \<Longrightarrow> chain g (dict_set n v par) s = chain g par s"
  by (induction g par s rule: chain.induct) (auto simp: dict_get_dict_set)

lemma chain_append: "chain g par (a @ b) \<Longrightarrow> b \<noteq> [] \<Longrightarrow> chain g par b"
  by (induction a) (auto dest: chain_tl)

lemma black_reach:
  assumes "black_closed g st" and "dict_get (color st) b = Some BLACK"
    and "(b, x) \<in> (key_edges g)\<^sup>*"
  shows "dict_get (color st) x = Some BLACK"
  using assms(3,1,2)
  by (induction rule: rtrancl_induct) (auto simp: black_closed_def)

lemma get_or_empty_key: "x \<in> set (get_or_empty g n) \<Longrightarrow> n \<in> set (dict_keys g)"
  by (cases "dict_get g n") (auto simp: get_or_empty_def dict_get_Some_key)

text \<open>
  The walk over the parent pointers, for a current node above a part of the gray path.
\<close>

lemma walk_parents_chain:
  assumes "chain g par (cur # pre @ nb # post)"
    and "\<forall>x \<in> set pre. x \<noteq> [] \<and> x \<noteq> nb"
    and "length pre < fuel"
  shows "walk_parents fuel par nb cur acc = Some (acc @ pre)"
  using assms
proof (induction pre arbitrary: cur fuel acc)
  case Nil
  then obtain f where "fuel = Suc f" by (cases fuel) auto
  with Nil show ?case by simp
next
  case (Cons p pre)
  then obtain f where f: "fuel = Suc f" by (cases fuel) auto
  have par: "dict_get par cur = Some (Some p)" using Cons.prems(1) by simp
  have "walk_parents f par nb p (acc @ [p]) = Some ((acc @ [p]) @ pre)"
    using Cons.prems f by (intro Cons.IH) auto
  then show ?case using par Cons.prems(2) f by simp
qed

lemma linked_chain: "chain g par (s @ z # t) \<Longrightarrow> linked g s"
  by (induction g s rule: linked.induct) auto

lemma chain_last_edge:
  "chain g par (s @ z # t) \<Longrightarrow> s \<noteq> [] \<Longrightarrow> last s \<in> set (get_or_empty g z)"
  by (induction g s rule: linked.induct) auto

lemma blacks_kept_refl [simp]: "blacks_kept st st"
  by (simp add: blacks_kept_def)

lemma blacks_kept_trans: "blacks_kept a b \<Longrightarrow> blacks_kept b c \<Longrightarrow> blacks_kept a c"
  by (simp add: blacks_kept_def)

lemma color_key: "keyed g st \<Longrightarrow> dict_get (color st) n = Some c \<Longrightarrow> n \<in> set (dict_keys g)"
  using keyed_color_None[of g st n] by auto

lemma dfs_enter:
  assumes inv: "dfs_inv g st stack"
    and ch: "chain g (parent st) (node # stack)"
    and w: "dict_get (color st) node = Some WHITE"
    and fw: "fresh_whites st {node}"
  defines "st1 \<equiv> st\<lparr>color := dict_set node GRAY (color st)\<rparr>"
  shows "dfs_inv g st1 (node # stack)" and "fresh_whites st1 {}" and "blacks_kept st st1"
proof -
  have k: "node \<in> set (dict_keys g)" using inv w by (auto simp: dfs_inv_def intro: color_key)
  have c1: "\<And>n. dict_get (color st1) n = (if n = node then Some GRAY else dict_get (color st) n)"
    by (simp add: st1_def dict_get_dict_set)
  have "\<forall>n. dict_get (color st) n = Some GRAY \<longleftrightarrow> n \<in> set stack"
    using inv by (simp add: dfs_inv_def gray_path_def)
  then have ns: "node \<notin> set stack" using w by (metis node_color.distinct(1) option.inject)
  have p1: "parent st1 = parent st" by (simp add: st1_def)
  have gs: "\<forall>n. dict_get (color st) n = Some GRAY \<longleftrightarrow> n \<in> set stack"
    and ds: "distinct stack"
    and bc: "black_closed g st" and ba: "black_acyclic g st"
    using inv by (simp_all add: dfs_inv_def gray_path_def)
  have nb: "\<And>n. dict_get (color st1) n = Some BLACK \<longleftrightarrow> dict_get (color st) n = Some BLACK"
    using w by (simp add: c1)
  have "keyed g st1" using inv k unfolding st1_def dfs_inv_def by (simp add: keyed_set_color)
  moreover have "gray_path g st1 (node # stack)"
    unfolding gray_path_def using ds ns gs ch by (simp add: c1 p1)
  moreover have "black_closed g st1"
    using bc unfolding black_closed_def nb .
  moreover have "black_acyclic g st1"
    using ba unfolding black_acyclic_def nb .
  ultimately show "dfs_inv g st1 (node # stack)" by (simp add: dfs_inv_def)
  show "fresh_whites st1 {}"
    using fw unfolding fresh_whites_def by (simp add: c1 p1)
  show "blacks_kept st st1"
    unfolding blacks_kept_def nb by simp
qed

lemma dfs_leave:
  assumes inv: "dfs_inv g st2 (node # stack)"
    and fw: "fresh_whites st2 {}"
    and nb: "\<forall>n \<in> set (get_or_empty g node). n \<in> set (dict_keys g)
                \<longrightarrow> dict_get (color st2) n = Some BLACK"
  defines "st3 \<equiv> st2\<lparr>color := dict_set node BLACK (color st2)\<rparr>"
  shows "dfs_inv g st3 stack" and "fresh_whites st3 {}"
    and "dict_get (color st3) node = Some BLACK" and "blacks_kept st2 st3"
proof -
  have gr: "dict_get (color st2) node = Some GRAY"
    using inv by (simp add: dfs_inv_def gray_path_def)
  have k: "node \<in> set (dict_keys g)" using inv gr by (auto simp: dfs_inv_def intro: color_key)
  have c3: "\<And>n. dict_get (color st3) n = (if n = node then Some BLACK else dict_get (color st2) n)"
    by (simp add: st3_def dict_get_dict_set)
  have p3: "parent st3 = parent st2" by (simp add: st3_def)
  have ns: "node \<notin> set stack" "distinct stack"
    using inv by (auto simp: dfs_inv_def gray_path_def)
  have cl2: "black_closed g st2" using inv by (simp add: dfs_inv_def)
  have "keyed g st3" using inv k unfolding st3_def dfs_inv_def by (simp add: keyed_set_color)
  moreover have "gray_path g st3 stack"
    using inv ns unfolding dfs_inv_def gray_path_def
    by (auto simp: c3 p3 dest: chain_tl)
  moreover have "black_closed g st3"
    unfolding black_closed_def
  proof (intro allI impI, elim conjE)
    fix b n
    assume b: "dict_get (color st3) b = Some BLACK" and e: "(b, n) \<in> key_edges g"
    have "dict_get (color st2) n = Some BLACK"
    proof (cases "b = node")
      case True
      with e nb show ?thesis by (auto simp: key_edges_def)
    next
      case False
      with b have "dict_get (color st2) b = Some BLACK" by (simp add: c3)
      with cl2 e show ?thesis by (auto simp: black_closed_def)
    qed
    then show "dict_get (color st3) n = Some BLACK" by (simp add: c3)
  qed
  moreover have "black_acyclic g st3"
    unfolding black_acyclic_def
  proof (intro allI impI)
    fix b
    assume b: "dict_get (color st3) b = Some BLACK"
    show "(b, b) \<notin> (key_edges g)\<^sup>+"
    proof (cases "b = node")
      case False
      with b have "dict_get (color st2) b = Some BLACK" by (simp add: c3)
      then show ?thesis using inv by (simp add: dfs_inv_def black_acyclic_def)
    next
      case True
      show ?thesis
      proof
        assume "(b, b) \<in> (key_edges g)\<^sup>+"
        then obtain n where n: "(node, n) \<in> key_edges g" "(n, node) \<in> (key_edges g)\<^sup>*"
          using True by (meson tranclD)
        have "dict_get (color st2) n = Some BLACK"
          using n(1) nb by (auto simp: key_edges_def)
        then have "dict_get (color st2) node = Some BLACK"
          using black_reach[OF cl2 _ n(2)] by simp
        with gr show False by simp
      qed
    qed
  qed
  ultimately show "dfs_inv g st3 stack" by (simp add: dfs_inv_def)
  show "fresh_whites st3 {}"
    using fw unfolding fresh_whites_def by (auto simp: c3 p3 split: if_splits)
  show "dict_get (color st3) node = Some BLACK" by (simp add: c3)
  show "blacks_kept st2 st3"
    unfolding blacks_kept_def by (auto simp: c3)
qed

lemma dfs_white_neighbor:
  assumes inv: "dfs_inv g st (node # stack)"
    and nb: "neighbor \<in> set (get_or_empty g node)"
    and w: "dict_get (color st) neighbor = Some WHITE"
    and fw: "fresh_whites st {}"
  defines "st1 \<equiv> st\<lparr>parent := dict_set neighbor (Some node) (parent st)\<rparr>"
  shows "dfs_inv g st1 (node # stack)" and "chain g (parent st1) (neighbor # node # stack)"
    and "dict_get (color st1) neighbor = Some WHITE" and "fresh_whites st1 {neighbor}"
    and "blacks_kept st st1" and "color st1 = color st"
proof -
  have k: "neighbor \<in> set (dict_keys g)" using inv w by (auto simp: dfs_inv_def intro: color_key)
  have c1: "color st1 = color st" by (simp add: st1_def)
  have "\<forall>n. dict_get (color st) n = Some GRAY \<longleftrightarrow> n \<in> set (node # stack)"
    using inv by (simp add: dfs_inv_def gray_path_def)
  then have ns: "neighbor \<notin> set (node # stack)"
    using w by (metis node_color.distinct(1) option.inject)
  have ch: "chain g (parent st1) (node # stack)"
    using inv ns unfolding st1_def dfs_inv_def gray_path_def by (simp add: chain_update)
  have "keyed g st1" using inv k unfolding st1_def dfs_inv_def by (simp add: keyed_set_parent)
  moreover have "gray_path g st1 (node # stack)"
    using inv ch unfolding dfs_inv_def gray_path_def by (simp add: c1)
  moreover have "black_closed g st1" "black_acyclic g st1"
    using inv unfolding dfs_inv_def black_closed_def black_acyclic_def by (simp_all add: c1)
  ultimately show "dfs_inv g st1 (node # stack)" by (simp add: dfs_inv_def)
  have "dict_get (parent st1) neighbor = Some (Some node)"
    by (simp add: st1_def dict_get_dict_set)
  then show "chain g (parent st1) (neighbor # node # stack)" using ch nb by simp
  show "dict_get (color st1) neighbor = Some WHITE" using w by (simp add: c1)
  show "fresh_whites st1 {neighbor}"
    using fw unfolding fresh_whites_def by (auto simp: c1) (simp add: st1_def dict_get_dict_set)
  show "blacks_kept st st1" by (simp add: blacks_kept_def c1)
  show "color st1 = color st" by (rule c1)
qed

lemma length_dict_keys [simp]: "length (dict_keys d) = length d"
  by (simp add: dict_keys_def)

lemma dfs_gray_neighbor:
  assumes inv: "dfs_inv g st (node # stack)"
    and nb: "neighbor \<in> set (get_or_empty g node)"
    and gr: "dict_get (color st) neighbor = Some GRAY"
    and ne: "[] \<notin> set (dict_keys g)"
    and nl: "\<forall>n. n \<notin> set (get_or_empty g n)"
  shows "\<exists>cyc. walk_parents (Suc (length (parent st))) (parent st) neighbor node [neighbor, node]
                 = Some cyc \<and> is_cycle g cyc"
proof -
  have gp: "distinct (node # stack)"
    "\<forall>n. dict_get (color st) n = Some GRAY \<longleftrightarrow> n \<in> set (node # stack)"
    "chain g (parent st) (node # stack)"
    and ky: "keyed g st"
    using inv by (simp_all add: dfs_inv_def gray_path_def)
  have "neighbor \<noteq> node" using nb nl by blast
  then have "neighbor \<in> set stack" using gr gp(2) by simp
  then obtain pre post where st: "stack = pre @ neighbor # post"
    by (meson split_list)
  have keys: "set (node # stack) \<subseteq> set (dict_keys g)"
    using gp(2) color_key[OF ky] by blast
  have pre: "\<forall>x \<in> set pre. x \<noteq> [] \<and> x \<noteq> neighbor"
    using gp(1) keys ne unfolding st by auto
  have "card (set (node # stack)) \<le> card (set (dict_keys g))"
    using keys by (intro card_mono) auto
  then have "length (node # stack) \<le> length (dict_keys g)"
    using gp(1) by (metis card_length distinct_card le_trans)
  then have len: "length pre < Suc (length (parent st))"
    using ky unfolding st keyed_def by (metis length_dict_keys length_append length_Cons
        add_Suc_right le_add1 le_trans less_Suc_eq_le Suc_le_lessD nat_less_le not_less_eq_eq)
  have ch: "chain g (parent st) (node # pre @ neighbor # post)"
    using gp(3) by (simp add: st)
  have w: "walk_parents (Suc (length (parent st))) (parent st) neighbor node [neighbor, node]
             = Some ([neighbor, node] @ pre)"
    using ch pre len by (rule walk_parents_chain)
  have "linked g (node # pre)"
    using ch linked_chain[of g "parent st" "node # pre" neighbor post] by simp
  then have l: "linked g (neighbor # node # pre)" using nb by simp
  have "last (node # pre) \<in> set (get_or_empty g neighbor)"
    using ch chain_last_edge[of g "parent st" "node # pre" neighbor post] by simp
  then have "is_cycle g ([neighbor, node] @ pre)"
    using l by (simp add: is_cycle_def)
  with w show ?thesis by blast
qed

definition dfs_post ::
  "graph \<Rightarrow> dfs_state \<Rightarrow> string \<Rightarrow> string list \<Rightarrow> string list option option \<times> dfs_state \<Rightarrow> bool" where
  "dfs_post g st node stack r =
     (fst r \<noteq> None \<and>
      (\<forall>cyc. fst r = Some (Some cyc) \<longrightarrow> is_cycle g cyc) \<and>
      (fst r = Some None \<longrightarrow>
         dfs_inv g (snd r) stack \<and> fresh_whites (snd r) {} \<and>
         dict_get (color (snd r)) node = Some BLACK \<and> blacks_kept st (snd r)))"

definition nbrs_post ::
  "graph \<Rightarrow> dfs_state \<Rightarrow> string \<Rightarrow> string list \<Rightarrow> string list option option \<times> dfs_state \<Rightarrow> bool" where
  "nbrs_post g st node stack r =
     (fst r \<noteq> None \<and>
      (\<forall>cyc. fst r = Some (Some cyc) \<longrightarrow> is_cycle g cyc) \<and>
      (fst r = Some None \<longrightarrow>
         dfs_inv g (snd r) (node # stack) \<and> fresh_whites (snd r) {} \<and>
         (\<forall>n \<in> set (get_or_empty g node). n \<in> set (dict_keys g)
                \<longrightarrow> dict_get (color (snd r)) n = Some BLACK) \<and>
         blacks_kept st (snd r)))"

definition plain :: "graph \<Rightarrow> bool" where
  "plain g = ([] \<notin> set (dict_keys g) \<and> (\<forall>n. n \<notin> set (get_or_empty g n)))"

lemma dfs_correct:
  "plain g \<Longrightarrow> dfs_inv g st stack \<Longrightarrow> chain g (parent st) (node # stack) \<Longrightarrow>
   dict_get (color st) node = Some WHITE \<Longrightarrow> fresh_whites st {node} \<Longrightarrow>
   dfs_post g st node stack (dfs rt g node st)"
  and dfs_neighbors_correct:
  "plain g \<Longrightarrow> dfs_inv g st (node # stack) \<Longrightarrow> set ns \<subseteq> set (get_or_empty g node) \<Longrightarrow>
   \<forall>n \<in> set (get_or_empty g node). n \<in> set (dict_keys g)
        \<longrightarrow> n \<in> set ns \<or> dict_get (color st) n = Some BLACK \<Longrightarrow>
   fresh_whites st {} \<Longrightarrow>
   nbrs_post g st node stack (dfs_neighbors rt g node ns st)"
proof (induction rt g node st and rt g node ns st arbitrary: stack and stack
        rule: dfs_dfs_neighbors.induct)
  case (1 rt g node st)
  let ?st1 = "st\<lparr>color := dict_set node GRAY (color st)\<rparr>"
  let ?r = "dfs_neighbors rt g node (iter_set rt (get_or_empty g node)) ?st1"
  have e: "dfs_inv g ?st1 (node # stack)" "fresh_whites ?st1 {}" "blacks_kept st ?st1"
    using dfs_enter[OF "1.prems"(2,3,4,5)] by simp_all
  have post: "nbrs_post g ?st1 node stack ?r"
    using "1.prems"(1) e by (intro "1.IH") auto
  obtain res st2 where r: "?r = (res, st2)" by (cases ?r)
  show ?case
  proof (cases "res = Some None")
    case True
    let ?st3 = "st2\<lparr>color := dict_set node BLACK (color st2)\<rparr>"
    have p: "dfs_inv g st2 (node # stack)" "fresh_whites st2 {}"
      "\<forall>n \<in> set (get_or_empty g node). n \<in> set (dict_keys g)
                \<longrightarrow> dict_get (color st2) n = Some BLACK"
      "blacks_kept ?st1 st2"
      using post r True by (simp_all add: nbrs_post_def)
    have l: "dfs_inv g ?st3 stack" "fresh_whites ?st3 {}"
      "dict_get (color ?st3) node = Some BLACK" "blacks_kept st2 ?st3"
      using dfs_leave[OF p(1,2,3)] by simp_all
    have "blacks_kept st ?st3"
      using e(3) p(4) l(4) by (meson blacks_kept_trans)
    moreover have "dfs rt g node st = (Some None, ?st3)"
      using r True by simp
    ultimately show ?thesis using l by (simp add: dfs_post_def)
  next
    case False
    then have "dfs rt g node st = (res, st2)"
      using r by (auto split: option.splits)
    then show ?thesis using post r False by (simp add: dfs_post_def nbrs_post_def)
  qed
next
  case (2 rt g node st)
  then show ?case by (auto simp: nbrs_post_def)
next
  case (3 rt g node neighbor rest st)
  have inv: "dfs_inv g st (node # stack)" by (rule "3.prems"(2))
  have nb: "neighbor \<in> set (get_or_empty g node)" using "3.prems"(3) by simp
  have rest: "set rest \<subseteq> set (get_or_empty g node)" using "3.prems"(3) by simp
  have ky: "keyed g st" using inv by (simp add: dfs_inv_def)
  show ?case
  proof (cases "dict_get (color st) neighbor")
    case None
    then have nk: "neighbor \<notin> set (dict_keys g)" using keyed_color_None[OF ky] by simp
    have cov: "\<forall>n \<in> set (get_or_empty g node). n \<in> set (dict_keys g)
                 \<longrightarrow> n \<in> set rest \<or> dict_get (color st) n = Some BLACK"
      using "3.prems"(4) nk by auto
    have "nbrs_post g st node stack (dfs_neighbors rt g node rest st)"
      using "3.IH"(1)[OF None "3.prems"(1) inv rest cov "3.prems"(5)] .
    then show ?thesis using None by simp
  next
    case (Some c)
    show ?thesis
    proof (cases c)
      case BLACK
      have cov: "\<forall>n \<in> set (get_or_empty g node). n \<in> set (dict_keys g)
                   \<longrightarrow> n \<in> set rest \<or> dict_get (color st) n = Some BLACK"
        using "3.prems"(4) Some BLACK by auto
      have "nbrs_post g st node stack (dfs_neighbors rt g node rest st)"
        using "3.IH"(5)[OF Some BLACK "3.prems"(1) inv rest cov "3.prems"(5)] .
      then show ?thesis using Some BLACK by simp
    next
      case GRAY
      obtain cyc where
        "walk_parents (Suc (length (parent st))) (parent st) neighbor node [neighbor, node] = Some cyc"
        "is_cycle g cyc"
        using dfs_gray_neighbor[OF inv nb] Some GRAY "3.prems"(1) by (auto simp: plain_def)
      then show ?thesis using Some GRAY by (simp add: nbrs_post_def)
    next
      case WHITE
      let ?st1 = "st\<lparr>parent := dict_set neighbor (Some node) (parent st)\<rparr>"
      have w: "dict_get (color st) neighbor = Some WHITE" using Some WHITE by simp
      have h: "dfs_inv g ?st1 (node # stack)" "chain g (parent ?st1) (neighbor # node # stack)"
        "dict_get (color ?st1) neighbor = Some WHITE" "fresh_whites ?st1 {neighbor}"
        "blacks_kept st ?st1"
        using dfs_white_neighbor[OF inv nb w "3.prems"(5)] by simp_all
      have post: "dfs_post g ?st1 neighbor (node # stack) (dfs rt g neighbor ?st1)"
        using "3.IH"(2)[OF Some WHITE "3.prems"(1) h(1,2,3,4)] .
      obtain res st' where r: "dfs rt g neighbor ?st1 = (res, st')"
        by (cases "dfs rt g neighbor ?st1")
      have nn: "res \<noteq> None" and cy: "\<And>cyc. res = Some (Some cyc) \<Longrightarrow> is_cycle g cyc"
        using post r by (simp_all add: dfs_post_def)
      show ?thesis
      proof (cases "res = Some None")
        case True
        have p: "dfs_inv g st' (node # stack)" "fresh_whites st' {}"
          "dict_get (color st') neighbor = Some BLACK" "blacks_kept ?st1 st'"
          using post r True by (simp_all add: dfs_post_def)
        have bk: "blacks_kept st st'" using h(5) p(4) by (meson blacks_kept_trans)
        have cov: "\<forall>n \<in> set (get_or_empty g node). n \<in> set (dict_keys g)
                     \<longrightarrow> n \<in> set rest \<or> dict_get (color st') n = Some BLACK"
          using "3.prems"(4) p(3) bk by (auto simp: blacks_kept_def)
        have r1: "(Some None, st') = dfs rt g neighbor ?st1" using r True by simp
        have q: "nbrs_post g st' node stack (dfs_neighbors rt g node rest st')"
          using "3.IH"(3)[OF Some WHITE r1 refl refl "3.prems"(1) p(1) rest cov p(2)] .
        have eq: "dfs_neighbors rt g node (neighbor # rest) st = dfs_neighbors rt g node rest st'"
          using w r True by simp
        show ?thesis
          unfolding eq using q bk unfolding nbrs_post_def by (auto intro: blacks_kept_trans)
      next
        case False
        then obtain cyc where c: "res = Some (Some cyc)" using nn by (cases res) auto
        then have ic: "is_cycle g cyc" by (rule cy)
        then have "cyc \<noteq> []" by (simp add: is_cycle_def)
        then have "dfs_neighbors rt g node (neighbor # rest) st = (Some (Some cyc), st')"
          using w r c by simp
        then show ?thesis using ic by (simp add: nbrs_post_def)
      qed
    qed
  qed
qed

definition upstream :: "graph \<Rightarrow> (string \<times> string) set" where
  "upstream g = {(i, d). d \<in> set (get_or_empty g i)}"

definition has_cycle :: "graph \<Rightarrow> bool" where
  "has_cycle g = (\<exists>x. (x, x) \<in> (upstream g)\<^sup>+)"

lemma upstream_key_edges:
  "(a, b) \<in> (upstream g)\<^sup>+ \<Longrightarrow> b \<in> set (dict_keys g) \<Longrightarrow> (a, b) \<in> (key_edges g)\<^sup>+"
proof (induction rule: trancl_induct)
  case (base y)
  then show ?case by (auto simp: upstream_def key_edges_def)
next
  case (step y z)
  have "y \<in> set (dict_keys g)" using step.hyps(2) by (auto simp: upstream_def dest: get_or_empty_key)
  then have "(a, y) \<in> (key_edges g)\<^sup>+" by (rule step.IH)
  moreover have "(y, z) \<in> key_edges g" using step.hyps(2) step.prems
    by (auto simp: upstream_def key_edges_def)
  ultimately show ?case by (rule trancl_into_trancl)
qed

lemma cycle_on_key:
  assumes "(x, x) \<in> (upstream g)\<^sup>+"
  shows "x \<in> set (dict_keys g) \<and> (x, x) \<in> (key_edges g)\<^sup>+"
proof -
  obtain y where "(x, y) \<in> upstream g" using assms by (meson tranclD)
  then have "x \<in> set (dict_keys g)" by (auto simp: upstream_def dest: get_or_empty_key)
  then show ?thesis using upstream_key_edges[OF assms] by simp
qed

lemma dict_get_const_map:
  "dict_get (map (\<lambda>(n, d). (n, c)) g) n = (if n \<in> set (dict_keys g) then Some c else None)"
  by (induction g) (auto simp: dict_get_def dict_keys_def)

lemma dict_keys_const_map: "dict_keys (map (\<lambda>(n, d). (n, c)) g) = dict_keys g"
  by (induction g) (auto simp: dict_keys_def)

definition dfs_start :: "graph \<Rightarrow> dfs_state" where
  "dfs_start g = \<lparr>color = map (\<lambda>(node, deps). (node, WHITE)) g,
                   parent = map (\<lambda>(node, deps). (node, None)) g\<rparr>"

lemma dfs_start_inv: "dfs_inv g (dfs_start g) []" and dfs_start_fresh: "fresh_whites (dfs_start g) {}"
  by (auto simp: dfs_inv_def keyed_def gray_path_def black_closed_def black_acyclic_def
        fresh_whites_def dfs_start_def dict_get_const_map dict_keys_const_map split: if_splits)

lemma detect_loop_correct:
  assumes "plain g"
  shows "dfs_inv g st [] \<Longrightarrow> fresh_whites st {} \<Longrightarrow> set nodes \<subseteq> set (dict_keys g) \<Longrightarrow>
         \<forall>n \<in> set (dict_keys g). n \<in> set nodes \<or> dict_get (color st) n = Some BLACK \<Longrightarrow>
         (\<exists>cyc. detect_loop rt g nodes st = Some (Some cyc) \<and> is_cycle g cyc) \<or>
         (detect_loop rt g nodes st = Some None \<and> \<not> has_cycle g)"
proof (induction nodes arbitrary: st)
  case Nil
  have "\<not> has_cycle g"
  proof
    assume "has_cycle g"
    then obtain x where x: "(x, x) \<in> (upstream g)\<^sup>+" by (auto simp: has_cycle_def)
    then have "x \<in> set (dict_keys g)" "(x, x) \<in> (key_edges g)\<^sup>+"
      using cycle_on_key by blast+
    moreover have "dict_get (color st) x = Some BLACK" using Nil.prems(4) calculation(1) by simp
    ultimately show False using Nil.prems(1) by (auto simp: dfs_inv_def black_acyclic_def)
  qed
  then show ?case by simp
next
  case (Cons node nodes)
  have ky: "keyed g st" and gp: "gray_path g st []"
    using Cons.prems(1) by (simp_all add: dfs_inv_def)
  have nk: "node \<in> set (dict_keys g)" and sub: "set nodes \<subseteq> set (dict_keys g)"
    using Cons.prems(3) by simp_all
  show ?case
  proof (cases "dict_get (color st) node = Some WHITE")
    case True
    have ch: "chain g (parent st) [node]"
      using Cons.prems(2) True by (simp add: fresh_whites_def)
    have fw: "fresh_whites st {node}" using Cons.prems(2) by (simp add: fresh_whites_def)
    have post: "dfs_post g st node [] (dfs rt g node st)"
      using dfs_correct[OF assms Cons.prems(1) ch True fw] .
    obtain res st' where r: "dfs rt g node st = (res, st')" by (cases "dfs rt g node st")
    have nn: "res \<noteq> None" and cy: "\<And>cyc. res = Some (Some cyc) \<Longrightarrow> is_cycle g cyc"
      using post r by (simp_all add: dfs_post_def)
    show ?thesis
    proof (cases "res = Some None")
      case T: True
      have p: "dfs_inv g st' []" "fresh_whites st' {}"
        "dict_get (color st') node = Some BLACK" "blacks_kept st st'"
        using post r T by (simp_all add: dfs_post_def)
      have cov: "\<forall>n \<in> set (dict_keys g). n \<in> set nodes \<or> dict_get (color st') n = Some BLACK"
        using Cons.prems(4) p(3,4) by (auto simp: blacks_kept_def)
      have "detect_loop rt g (node # nodes) st = detect_loop rt g nodes st'"
        using True r T by simp
      then show ?thesis using Cons.IH[OF p(1,2) sub cov] by simp
    next
      case False
      then obtain cyc where c: "res = Some (Some cyc)" using nn by (cases res) auto
      then have ic: "is_cycle g cyc" by (rule cy)
      then have "cyc \<noteq> []" by (simp add: is_cycle_def)
      then have "detect_loop rt g (node # nodes) st = Some (Some cyc)"
        using True r c by simp
      then show ?thesis using ic by simp
    qed
  next
    case False
    have "dict_get (color st) node \<noteq> None" using keyed_color_None[OF ky] nk by simp
    moreover have "dict_get (color st) node \<noteq> Some GRAY" using gp by (simp add: gray_path_def)
    ultimately have b: "dict_get (color st) node = Some BLACK"
      using False by (cases "dict_get (color st) node") (auto intro: node_color.exhaust)
    have cov: "\<forall>n \<in> set (dict_keys g). n \<in> set nodes \<or> dict_get (color st) n = Some BLACK"
      using Cons.prems(4) b by auto
    have "detect_loop rt g (node # nodes) st = detect_loop rt g nodes st"
      using False by simp
    then show ?thesis using Cons.IH[OF Cons.prems(1,2) sub cov] by simp
  qed
qed

lemma detect_cycle_correct:
  assumes "plain g"
  shows "(\<exists>cyc. detect_cycle rt g = Some (Some cyc) \<and> is_cycle g cyc) \<or>
         (detect_cycle rt g = Some None \<and> \<not> has_cycle g)"
  using detect_loop_correct[OF assms dfs_start_inv dfs_start_fresh, of "dict_keys g" rt]
  by (simp add: detect_cycle_def dfs_start_def)

lemma dependencies_no_self_fold:
  "i \<notin> set acc \<Longrightarrow>
   i \<notin> set (fold (\<lambda>var deps.
                     case dict_get m var of
                       None \<Rightarrow> deps
                     | Some upstream_cell \<Rightarrow>
                         if upstream_cell \<noteq> i then set_add upstream_cell deps else deps) xs acc)"
  by (induction xs arbitrary: acc) (auto split: option.splits)

lemma dependencies_of_no_self: "i \<notin> set (dependencies_of rt m i a)"
  unfolding dependencies_of_def by (rule dependencies_no_self_fold) simp

definition loop_free :: "graph \<Rightarrow> bool" where
  "loop_free g = (\<forall>k deps. dict_get g k = Some deps \<longrightarrow> k \<notin> set deps)"

lemma loop_free_fold:
  "loop_free g0 \<Longrightarrow>
   loop_free (fold (\<lambda>cell g. case dict_get an (cid cell) of
                                 None \<Rightarrow> g
                               | Some analysis \<Rightarrow>
                                   dict_set (cid cell) (dependencies_of rt m (cid cell) analysis) g)
                cs g0)"
proof (induction cs arbitrary: g0)
  case Nil
  then show ?case by simp
next
  case (Cons c cs)
  show ?case
  proof (cases "dict_get an (cid c)")
    case None
    then show ?thesis using Cons by simp
  next
    case (Some a)
    have "loop_free (dict_set (cid c) (dependencies_of rt m (cid c) a) g0)"
      using Cons.prems dependencies_of_no_self
      by (auto simp: loop_free_def dict_get_dict_set split: if_splits)
    then show ?thesis using Cons.IH Some by simp
  qed
qed

lemma build_dependency_graph_loop_free: "loop_free (build_dependency_graph rt cs)"
  unfolding build_dependency_graph_def Let_def
  by (rule loop_free_fold) (simp add: loop_free_def dict_get_def)

lemma build_dependency_graph_plain:
  "[] \<notin> cid ` set cs \<Longrightarrow> plain (build_dependency_graph rt cs)"
  using build_dependency_graph_keys[of rt cs] build_dependency_graph_loop_free[of rt cs]
  by (auto simp: plain_def loop_free_def get_or_empty_def split: option.splits)

lemma linked_keys: "linked g (x # s) \<Longrightarrow> set s \<subseteq> set (dict_keys g)"
  by (induction g "x # s" arbitrary: x s rule: linked.induct) (auto dest: get_or_empty_key)

lemma is_cycle_keys: "is_cycle g cyc \<Longrightarrow> set cyc \<subseteq> set (dict_keys g)"
proof -
  assume c: "is_cycle g cyc"
  then obtain x s where xs: "cyc = x # s" by (cases cyc) (auto simp: is_cycle_def)
  have "set s \<subseteq> set (dict_keys g)"
    using c xs linked_keys[of g x s] by (simp add: is_cycle_def)
  moreover have "x \<in> set (dict_keys g)"
    using c xs by (auto simp: is_cycle_def dest: get_or_empty_key)
  ultimately show ?thesis using xs by simp
qed

lemma mark_cycle_twice: "mark_cycle cyc (mark_cycle cyc s) = mark_cycle cyc s"
  by (simp add: mark_cycle_def)

lemma update_status_alt:
  "update_status j f r
     = r\<lparr>cell_states := (\<lambda>k. if k = j then map_option f (cell_states r k) else cell_states r k)\<rparr>"
  by (cases "cell_states r j")
     (auto simp: update_status_def fun_eq_iff intro!: Reactor.equality)

lemma fold_update_status:
  assumes "\<And>s. f (f s) = f s"
  shows "fold (\<lambda>j. update_status j f) js r
           = r\<lparr>cell_states := (\<lambda>j. if j \<in> set js then map_option f (cell_states r j)
                                     else cell_states r j)\<rparr>"
proof (induction js arbitrary: r)
  case Nil
  then show ?case by simp
next
  case (Cons j js)
  have "fold (\<lambda>j. update_status j f) (j # js) r
          = fold (\<lambda>j. update_status j f) js (update_status j f r)"
    by simp
  also have "\<dots> = (update_status j f r)
        \<lparr>cell_states := (\<lambda>k. if k \<in> set js then map_option f (cell_states (update_status j f r) k)
                               else cell_states (update_status j f r) k)\<rparr>"
    by (rule Cons.IH)
  also have "\<dots> = r\<lparr>cell_states := (\<lambda>k. if k \<in> set (j # js) then map_option f (cell_states r k)
                                     else cell_states r k)\<rparr>"
    unfolding update_status_alt
    by (auto simp: fun_eq_iff assms option.map_comp comp_def intro!: Reactor.equality
             split: option.splits)
  finally show ?case .
qed

lemma run_cell_cycle_branch:
  assumes "get_execution_order rt (cells r) i = Some (ord, Some cycle)" and "cycle \<noteq> []"
  shows "run_cell rt ex sql_ex i r
           = (let r1 = fold (\<lambda>j. update_status j (mark_cycle cycle)) cycle r
              in case find (\<lambda>j. cell_states r1 j = None) cycle of
                   Some j \<Rightarrow> (Inl (KeyError j), r1)
                 | None \<Rightarrow> (Inr cycle, r1))"
proof (cases cycle)
  case Nil
  then show ?thesis using assms(2) by simp
next
  case (Cons c cs)
  show ?thesis using assms(1) unfolding Cons by (simp add: run_cell_def)
qed

text \<open>
  A Reactor in which every cell has a state and no cell has the empty identifier, and whose
  dependency graph has a cycle: \<open>detect_cycle\<close> returns a cycle of the graph; \<open>run\<close>, for any
  identifier, returns the identifiers of that cycle, sets \<open>status\<close> and \<open>error\<close> of each of
  their states as \<open>mark_cycle\<close> says (error, with the message listing the cycle) and touches
  nothing else: no other state, not the cell list, and not the namespace, so no cell is
  executed.
\<close>

theorem run_cell_cycle:
  assumes ne: "[] \<notin> cid ` set (cells r)"
    and states: "list_all (\<lambda>c. cell_states r (cid c) \<noteq> None) (cells r)"
    and cyc: "has_cycle (build_dependency_graph rt (cells r))"
  shows "\<exists>cycle.
           detect_cycle rt (build_dependency_graph rt (cells r)) = Some (Some cycle) \<and>
           is_cycle (build_dependency_graph rt (cells r)) cycle \<and>
           run_cell rt ex sql_ex i r
             = (Inr cycle,
                r\<lparr>cell_states := (\<lambda>j. if j \<in> set cycle
                                        then map_option (mark_cycle cycle) (cell_states r j)
                                        else cell_states r j)\<rparr>) \<and>
           list_all (\<lambda>j. cell_states r j \<noteq> None) cycle"
proof -
  let ?g = "build_dependency_graph rt (cells r)"
  have "plain ?g" using ne by (rule build_dependency_graph_plain)
  then obtain cycle where d: "detect_cycle rt ?g = Some (Some cycle)" and ic: "is_cycle ?g cycle"
    using detect_cycle_correct[of ?g rt] cyc by blast
  obtain c cs where cc: "cycle = c # cs" using ic by (cases cycle) (auto simp: is_cycle_def)
  have "set cycle \<subseteq> cid ` set (cells r)"
    using is_cycle_keys[OF ic] build_dependency_graph_keys[of rt "cells r"] by blast
  then have st: "\<forall>j \<in> set cycle. cell_states r j \<noteq> None"
    using states by (auto simp: list_all_iff)
  let ?r1 = "r\<lparr>cell_states := (\<lambda>j. if j \<in> set cycle
                                        then map_option (mark_cycle cycle) (cell_states r j)
                                        else cell_states r j)\<rparr>"
  have f: "fold (\<lambda>j. update_status j (mark_cycle cycle)) cycle r = ?r1"
    by (rule fold_update_status) (rule mark_cycle_twice)
  have nf: "find (\<lambda>j. cell_states ?r1 j = None) cycle = None"
    using st by (auto simp: find_None_iff)
  have o: "get_execution_order rt (cells r) i = Some ([], Some cycle)"
    using d cc by (simp add: get_execution_order_def)
  have cn: "cycle \<noteq> []" using cc by simp
  have "run_cell rt ex sql_ex i r = (Inr cycle, ?r1)"
    unfolding run_cell_cycle_branch[OF o cn] Let_def f nf by simp
  with d ic st show ?thesis by (auto simp: list_all_iff)
qed

lemma cells_set_cells [simp]: "cells (set_cells cs r) = cs"
  by (simp add: set_cells_def Let_def)

lemma cyclic_graph:
  "build_dependency_graph demo_runtime cyclic_cells = [(''c1'', [''c2'']), (''c2'', [''c1''])]"
  by (simp add: analysis_defs cyclic_cells_def)

lemma cyclic_has_cycle: "has_cycle [(''c1'', [''c2'']), (''c2'', [''c1''])]"
proof -
  have "(''c1'', ''c2'') \<in> upstream [(''c1'', [''c2'']), (''c2'', [''c1''])]"
    and "(''c2'', ''c1'') \<in> upstream [(''c1'', [''c2'']), (''c2'', [''c1''])]"
    by (simp_all add: upstream_def get_or_empty_def dict_get_def)
  then have "(''c1'', ''c1'') \<in> (upstream [(''c1'', [''c2'']), (''c2'', [''c1''])])\<^sup>+"
    by (meson trancl.simps)
  then show ?thesis unfolding has_cycle_def by blast
qed

theorem run_cell_cycle_witness:
  "[] \<notin> cid ` set (cells (set_cells cyclic_cells (Reactor_init []))) \<and>
   list_all (\<lambda>c. cell_states (set_cells cyclic_cells (Reactor_init [])) (cid c) \<noteq> None)
     (cells (set_cells cyclic_cells (Reactor_init []))) \<and>
   has_cycle (build_dependency_graph demo_runtime (cells (set_cells cyclic_cells (Reactor_init [])))) \<and>
   (\<exists>cycle.
      detect_cycle demo_runtime
        (build_dependency_graph demo_runtime (cells (set_cells cyclic_cells (Reactor_init []))))
        = Some (Some cycle) \<and>
      fst (run_cell demo_runtime log_executor None ''c1'' (set_cells cyclic_cells (Reactor_init [])))
        = Inr cycle)"
proof -
  let ?r = "set_cells cyclic_cells (Reactor_init [])"
  have a: "[] \<notin> cid ` set (cells ?r)"
    by (simp add: cyclic_cells_def python_cell_def)
  have b: "list_all (\<lambda>c. cell_states ?r (cid c) \<noteq> None) (cells ?r)"
    by (simp add: set_cells_def cyclic_cells_def python_cell_def Reactor_init_def)
  have c: "has_cycle (build_dependency_graph demo_runtime (cells ?r))"
    by (simp add: cyclic_graph cyclic_has_cycle)
  show ?thesis
    using a b c run_cell_cycle[OF a b c, of log_executor None "''c1''"] by auto
qed

section \<open>Cycles and the empty identifier\<close>

text \<open>
  Three cells in a cycle, the middle one with the empty string as its identifier (what the
  marker \<open># %% [id:]\<close> parses to): \<open>a\<close> reads what the empty cell writes, the empty cell
  reads what \<open>c\<close> writes, \<open>c\<close> reads what \<open>a\<close> writes.  The search goes from \<open>a\<close> to the empty
  cell to \<open>c\<close> and meets \<open>a\<close> again; the walk back along the parent pointers stops at once,
  because the parent of \<open>c\<close> is the empty string and \<open>parent[current] and ...\<close> takes it for
  \<open>None\<close>.
\<close>

definition chain_parse :: "string \<Rightarrow> ast option" where
  "chain_parse src =
     (if src = ''w = x'' then
        Some (Node ''Module'' [Node ''Assign'' [Name ''w'' Store, Name ''x'' Load]])
      else if src = ''x = y'' then
        Some (Node ''Module'' [Node ''Assign'' [Name ''x'' Store, Name ''y'' Load]])
      else if src = ''y = w'' then
        Some (Node ''Module'' [Node ''Assign'' [Name ''y'' Store, Name ''w'' Load]])
      else None)"

definition chain_runtime :: runtime where
  "chain_runtime = \<lparr>ast_parse = chain_parse, set_iter = insertion_order\<rparr>"

definition empty_id_cells :: "Cell list" where
  "empty_id_cells = [python_cell ''a'' ''w = x'', python_cell [] ''x = y'', python_cell ''c'' ''y = w'']"

lemma empty_id_graph:
  "build_dependency_graph chain_runtime empty_id_cells = [(''a'', [[]]), ([], [''c'']), (''c'', [''a''])]"
  by (simp add: build_dependency_graph_def analyses_of_def var_to_cell_of_def dependencies_of_def
  python_cell_def analyze_cell_def dict_get_def analyze_python_code_def
  chain_runtime_def chain_parse_def VariableVisitor_init_def 
  write_name_def set_add_def set_union_def set_diff_def common_builtins_def iter_set_def empty_id_cells_def)

lemma empty_id_cycle:
  "detect_cycle chain_runtime [(''a'', [[]]), ([], [''c'']), (''c'', [''a''])] = Some (Some [''a'', ''c''])"
  by (simp add: order_defs dict_get_def chain_runtime_def iter_set_def)

lemma empty_id_not_a_cycle:
  "\<not> is_cycle [(''a'', [[]]), ([], [''c'']), (''c'', [''a''])] [''a'', ''c'']"
  by (simp add: is_cycle_def get_or_empty_def dict_get_def)

lemma empty_id_on_cycle:
  "([], []) \<in> (upstream [(''a'', [[]]), ([], [''c'']), (''c'', [''a''])])\<^sup>+"
proof -
  let ?g = "[(''a'', [[]]), ([], [''c'']), (''c'', [''a''])]"
  have "([], ''c'') \<in> upstream ?g" "(''c'', ''a'') \<in> upstream ?g" "(''a'', []) \<in> upstream ?g"
    by (simp_all add: upstream_def get_or_empty_def dict_get_def)
  then show ?thesis by (meson trancl.simps)
qed

text \<open>
  C6.  On this notebook \<open>detect_cycle\<close> returns \<open>[a, c]\<close>, which is not a cycle of the graph
  (\<open>a\<close> does not depend on \<open>c\<close>), and \<open>run\<close> puts \<open>a\<close> and \<open>c\<close> in error and leaves the
  third cell of the cycle idle.
\<close>

theorem empty_id_cycle_member_not_marked:
  "fst (run_cell chain_runtime log_executor None ''a'' (set_cells empty_id_cells (Reactor_init [])))
     = Inr [''a'', ''c''] \<and>
   map_option status
     (cell_states (snd (run_cell chain_runtime log_executor None ''a''
                          (set_cells empty_id_cells (Reactor_init [])))) [])
     = Some IDLE"
  by (simp add: reactor_defs analysis_defs order_defs chain_runtime_def chain_parse_def
        empty_id_cells_def)


section \<open>parser.py\<close>

text \<open>
  \<open>split_on sep s\<close> is \<open>s.split(sep)\<close> for a separator of one character, \<open>str_join\<close> (above)
  is \<open>sep.join(xs)\<close>.  \<open>marker_match\<close> is \<open>CELL_MARKER_PATTERN.match(line)\<close> with
  \<open>match.group(1)\<close> as its value: the line starts with \<open># %%\<close>, then white space, an opening
  bracket, one or more characters other than the closing bracket (the group), the closing
  bracket, and white space up to the end of the line.
\<close>

fun split_on :: "char \<Rightarrow> string \<Rightarrow> string list" where
  "split_on sep [] = [[]]"
| "split_on sep (c # cs) =
     (if c = sep then [] # split_on sep cs
      else (case split_on sep cs of
              x # xs \<Rightarrow> (c # x) # xs
            | [] \<Rightarrow> [[c]]))"

definition marker_match :: "string \<Rightarrow> string option" where
  "marker_match line =
     (if take 4 line = ''# %%'' then
        (case dropWhile isspace (drop 4 line) of
           [] \<Rightarrow> None
         | c # rest \<Rightarrow>
             if c = CHR ''[''
             then (let content = takeWhile (\<lambda>x. x \<noteq> CHR '']'') rest;
                       after = dropWhile (\<lambda>x. x \<noteq> CHR '']'') rest
                   in if content \<noteq> [] \<and> after \<noteq> [] \<and> list_all isspace (tl after)
                      then Some content else None)
             else None)
      else None)"

definition marker_step :: "string \<Rightarrow> (string, string) dict \<Rightarrow> (string, string) dict" where
  "marker_step part res =
     (let p = strip part
      in if CHR '':'' \<in> set p
         then dict_set (strip (takeWhile (\<lambda>x. x \<noteq> CHR '':'') p))
                (strip (tl (dropWhile (\<lambda>x. x \<noteq> CHR '':'') p))) res
         else res)"

definition parse_marker :: "string \<Rightarrow> (string, string) dict" where
  "parse_marker marker_content = fold marker_step (split_on CHR '','' marker_content) []"

text \<open>
  \<open>generate_cell_id\<close> is \<open>uuid.uuid4().hex[:8]\<close>: the eight hexadecimal digits of 32 random
  bits.  The random source is a parameter of the parser, a sequence of numbers; as in the
  source, the marker of every cell draws from it, whether or not the marker has an \<open>id\<close>.
\<close>

definition hex_digit :: "nat \<Rightarrow> char" where
  "hex_digit n = ''0123456789abcdef'' ! (n mod 16)"

definition generate_cell_id :: "nat \<Rightarrow> string" where
  "generate_cell_id n = map (\<lambda>k. hex_digit (n div 16 ^ k)) [7, 6, 5, 4, 3, 2, 1, 0]"

record parse_state =
  parsed_cells :: "Cell list"
  current_cell :: "Cell option"
  current_code_lines :: "string list"
  draws :: nat

definition close_cell :: "parse_state \<Rightarrow> Cell list" where
  "close_cell st =
     (case current_cell st of
        None \<Rightarrow> parsed_cells st
      | Some cell \<Rightarrow>
          parsed_cells st @ [cell\<lparr>code := strip (str_join [CHR 0x0A] (current_code_lines st))\<rparr>])"

definition parse_line :: "(nat \<Rightarrow> nat) \<Rightarrow> string \<Rightarrow> parse_state \<Rightarrow> parse_state" where
  "parse_line rnd line st =
     (case marker_match line of
        Some marker_content \<Rightarrow>
          (let marker_data = parse_marker marker_content;
               fresh = generate_cell_id (rnd (draws st));
               cell_id = (case dict_get marker_data ''id'' of Some v \<Rightarrow> v | None \<Rightarrow> fresh);
               kind = (case dict_get marker_data ''type'' of Some v \<Rightarrow> v | None \<Rightarrow> ''python'')
           in \<lparr>parsed_cells = close_cell st,
               current_cell = Some \<lparr>cid = cell_id, code = [], cell_type = kind,
                                     as_var = dict_get marker_data ''as''\<rparr>,
               current_code_lines = [],
               draws = Suc (draws st)\<rparr>)
      | None \<Rightarrow>
          (case current_cell st of
             Some cell \<Rightarrow> st\<lparr>current_code_lines := current_code_lines st @ [line]\<rparr>
           | None \<Rightarrow> st))"

definition parse_notebook :: "(nat \<Rightarrow> nat) \<Rightarrow> string \<Rightarrow> Cell list" where
  "parse_notebook rnd content =
     close_cell (fold (parse_line rnd) (split_on (CHR 0x0A) content)
                   \<lparr>parsed_cells = [], current_cell = None, current_code_lines = [], draws = 0\<rparr>)"

definition marker_parts :: "Cell \<Rightarrow> string list" where
  "marker_parts cell =
     [''id: '' @ cid cell]
     @ (if cell_type cell \<noteq> ''python'' then [''type: '' @ cell_type cell] else [])
     @ (case as_var cell of
          Some a \<Rightarrow> if a \<noteq> [] then [''as: '' @ a] else []
        | None \<Rightarrow> [])"

definition serialize_cell :: "Cell \<Rightarrow> string" where
  "serialize_cell cell =
     (''# %% ['' @ str_join '', '' (marker_parts cell) @ '']'') @ [CHR 0x0A] @ code cell"

definition serialize_notebook :: "Cell list \<Rightarrow> string" where
  "serialize_notebook cs =
     (if cs = [] then []
      else str_join [CHR 0x0A, CHR 0x0A] (map serialize_cell cs) @ [CHR 0x0A])"

definition indented_marker_text :: string where
  "indented_marker_text = ''# %% [id: a]'' @ [CHR 0x0A] @ '' # %% [id: b]''"

lemmas parser_defs =
  parse_notebook_def parse_line_def close_cell_def marker_match_def parse_marker_def
  marker_step_def
  strip_def lstrip_def rstrip_def isspace_def dict_get_def serialize_notebook_def
  serialize_cell_def marker_parts_def

lemma parse_indented: "parse_notebook (\<lambda>n. 0) indented_marker_text
   = [\<lparr>cid = ''a'', code = ''# %% [id: b]'', cell_type = ''python'', as_var = None\<rparr>]"
  by (simp add: parser_defs indented_marker_text_def)

lemma ser_indented: "serialize_notebook (parse_notebook (\<lambda>n. 0) indented_marker_text)
   = ''# %% [id: a]'' @ [CHR 0x0A] @ ''# %% [id: b]'' @ [CHR 0x0A]"
  by (simp add: parse_indented) (simp add: parser_defs)

subsection \<open>Splitting and joining\<close>

lemma split_on_not_Nil [simp]: "split_on sep s \<noteq> []"
  by (induction s) (auto split: list.splits)

lemma split_on_none: "sep \<notin> set s \<Longrightarrow> split_on sep s = [s]"
  by (induction s) auto

lemma split_on_append: "split_on sep (a @ sep # b) = split_on sep a @ split_on sep b"
proof (induction a)
  case Nil
  then show ?case by simp
next
  case (Cons c a)
  obtain x xs where x: "split_on sep a = x # xs"
    by (cases "split_on sep a") auto
  with Cons show ?case by auto
qed

lemma split_on_elems: "x \<in> set (split_on sep s) \<Longrightarrow> sep \<notin> set x \<and> set x \<subseteq> set s"
proof (induction s arbitrary: x)
  case Nil
  then show ?case by simp
next
  case (Cons c s)
  obtain y ys where y: "split_on sep s = y # ys"
    by (cases "split_on sep s") auto
  show ?case
  proof (cases "c = sep")
    case True
    with Cons show ?thesis by auto
  next
    case False
    then have "x = c # y \<or> x \<in> set ys" using Cons.prems y by auto
    moreover have "sep \<notin> set y \<and> set y \<subseteq> set s" using Cons.IH[of y] y by simp
    moreover have "x \<in> set ys \<Longrightarrow> sep \<notin> set x \<and> set x \<subseteq> set s" using Cons.IH[of x] y by simp
    ultimately show ?thesis using False by auto
  qed
qed

lemma str_join_snoc: "xs \<noteq> [] \<Longrightarrow> str_join sep (xs @ [y]) = str_join sep xs @ sep @ y"
  by (induction sep xs rule: str_join.induct) auto

lemma str_join_Cons: "xs \<noteq> [] \<Longrightarrow> str_join sep (x # xs) = x @ sep @ str_join sep xs"
  by (cases xs) auto

lemma str_join_split_on: "str_join [sep] (split_on sep s) = s"
proof (induction s)
  case Nil
  then show ?case by simp
next
  case (Cons c s)
  obtain y ys where y: "split_on sep s = y # ys"
    by (cases "split_on sep s") auto
  show ?case
  proof (cases "c = sep")
    case True
    with Cons show ?thesis by (simp add: str_join_Cons)
  next
    case False
    with Cons y show ?thesis by (cases ys) auto
  qed
qed

lemma set_str_join: "set (str_join sep xs) \<subseteq> set sep \<union> \<Union> (set ` set xs)"
  by (induction sep xs rule: str_join.induct) auto

subsection \<open>Stripping white space\<close>

lemma lstrip_spaces: "list_all isspace w \<Longrightarrow> lstrip (w @ s) = lstrip s"
  by (simp add: lstrip_def dropWhile_append2 list_all_iff)

lemma lstrip_keep: "s = [] \<or> \<not> isspace (hd s) \<Longrightarrow> lstrip s = s"
  by (cases s) (auto simp: lstrip_def)

lemma rstrip_spaces: "list_all isspace w \<Longrightarrow> rstrip (s @ w) = rstrip s"
proof -
  assume "list_all isspace w"
  then have "dropWhile isspace (rev w @ rev s) = dropWhile isspace (rev s)"
    by (intro dropWhile_append2) (simp add: list_all_iff)
  then show ?thesis by (simp add: rstrip_def)
qed

lemma rstrip_keep: "s = [] \<or> \<not> isspace (last s) \<Longrightarrow> rstrip s = s"
  by (cases s rule: rev_cases) (auto simp: rstrip_def)

definition stripped :: "string \<Rightarrow> bool" where
  "stripped s = (s = [] \<or> (\<not> isspace (hd s) \<and> \<not> isspace (last s)))"

lemma strip_stripped: "stripped s \<Longrightarrow> strip s = s"
  by (auto simp: stripped_def strip_def lstrip_keep rstrip_keep)

lemma lstrip_cases: "lstrip s = [] \<or> \<not> isspace (hd (lstrip s))"
  unfolding lstrip_def by (metis hd_dropWhile)

lemma rstrip_cases: "rstrip s = [] \<or> \<not> isspace (last (rstrip s))"
  unfolding rstrip_def by (metis hd_dropWhile last_rev rev_is_Nil_conv)

lemma rstrip_prefix: "\<exists>w. s = rstrip s @ w \<and> list_all isspace w"
proof -
  have "rev s = takeWhile isspace (rev s) @ dropWhile isspace (rev s)" by simp
  then have "s = rev (dropWhile isspace (rev s)) @ rev (takeWhile isspace (rev s))"
    by (metis rev_append rev_rev_ident)
  moreover have "list_all isspace (rev (takeWhile isspace (rev s)))"
    by (simp add: list_all_iff) (meson set_takeWhileD)
  ultimately show ?thesis unfolding rstrip_def by blast
qed

lemma hd_rstrip: "rstrip s \<noteq> [] \<Longrightarrow> hd (rstrip s) = hd s"
  using rstrip_prefix[of s] by (metis hd_append2)

lemma stripped_strip: "stripped (strip s)"
  unfolding stripped_def strip_def
  using rstrip_cases[of "lstrip s"] lstrip_cases[of s] hd_rstrip[of "lstrip s"]
  by (metis rstrip_def rev.simps(1) dropWhile.simps(1))

lemma strip_strip [simp]: "strip (strip s) = strip s"
  by (simp add: strip_stripped stripped_strip)

lemma set_strip: "set (strip s) \<subseteq> set s"
proof -
  have "set (rstrip t) \<subseteq> set t" for t
    unfolding rstrip_def using set_dropWhileD[of _ isspace "rev t"] by auto
  moreover have "set (lstrip s) \<subseteq> set s"
    unfolding lstrip_def using set_dropWhileD[of _ isspace s] by auto
  ultimately show ?thesis unfolding strip_def by blast
qed

lemma strip_eq_stripped: "strip s = s \<Longrightarrow> stripped s"
  by (metis stripped_strip)

subsection \<open>Serialized cells parse back\<close>

definition wf_value :: "string \<Rightarrow> bool" where
  "wf_value v = (strip v = v \<and> CHR '','' \<notin> set v \<and> CHR '']'' \<notin> set v \<and> CHR 0x0A \<notin> set v)"

definition wf_cell :: "Cell \<Rightarrow> bool" where
  "wf_cell c =
     (wf_value (cid c) \<and> wf_value (cell_type c) \<and>
      (case as_var c of None \<Rightarrow> True | Some a \<Rightarrow> wf_value a \<and> a \<noteq> []) \<and>
      strip (code c) = code c \<and>
      list_all (\<lambda>l. marker_match l = None) (split_on (CHR 0x0A) (code c)))"

definition marker_line :: "Cell \<Rightarrow> string" where
  "marker_line c = ''# %% ['' @ str_join '', '' (marker_parts c) @ '']''"

definition cell_lines :: "Cell \<Rightarrow> string list" where
  "cell_lines c = marker_line c # split_on (CHR 0x0A) (code c) @ [[]]"

lemma parse_marker_steps: "parse_marker s = fold marker_step (split_on CHR '','' s) []"
  by (simp add: parse_marker_def)

lemma serialize_cell_lines: "serialize_cell c = marker_line c @ [CHR 0x0A] @ code c"
  by (simp add: serialize_cell_def marker_line_def)

lemma split_on_prefix:
  "sep \<notin> set w \<Longrightarrow>
   split_on sep (w @ s) = (w @ hd (split_on sep s)) # tl (split_on sep s)"
proof (induction w)
  case Nil
  then show ?case by simp
next
  case (Cons a w)
  then show ?case by (cases "split_on sep s") auto
qed

lemma split_on_str_join:
  "ps \<noteq> [] \<Longrightarrow> \<forall>p \<in> set ps. sep \<notin> set p \<Longrightarrow> sep \<notin> set w \<Longrightarrow>
   split_on sep (str_join (sep # w) ps) = hd ps # map ((@) w) (tl ps)"
proof (induction "sep # w" ps rule: str_join.induct)
  case 1
  then show ?case by simp
next
  case (2 x)
  then show ?case by (simp add: split_on_none)
next
  case (3 x y ys)
  have "split_on sep (x @ sep # (w @ str_join (sep # w) (y # ys)))
          = split_on sep x @ split_on sep (w @ str_join (sep # w) (y # ys))"
    by (rule split_on_append)
  also have "split_on sep x = [x]" using 3 by (simp add: split_on_none)
  also have "split_on sep (w @ str_join (sep # w) (y # ys))
               = (w @ y) # map ((@) w) ys"
    using 3 by (simp add: split_on_prefix)
  finally show ?case by simp
qed

lemma strip_trailing: "strip s = s \<Longrightarrow> list_all isspace w \<Longrightarrow> strip (s @ w) = s"
proof -
  assume s: "strip s = s" and w: "list_all isspace w"
  have st: "stripped s" using s by (rule strip_eq_stripped)
  show ?thesis
  proof (cases "s = []")
    case True
    have "lstrip w = []" using w by (simp add: lstrip_def list_all_iff)
    with True show ?thesis by (simp add: strip_def rstrip_def)
  next
    case False
    then have "lstrip (s @ w) = s @ w" using st by (intro lstrip_keep) (simp add: stripped_def)
    moreover have "rstrip (s @ w) = s"
      using w st False by (simp add: rstrip_spaces rstrip_keep stripped_def)
    ultimately show ?thesis by (simp add: strip_def)
  qed
qed

lemma strip_leading: "strip s = s \<Longrightarrow> list_all isspace w \<Longrightarrow> strip (w @ s) = s"
proof -
  assume s: "strip s = s" and w: "list_all isspace w"
  have "lstrip (w @ s) = lstrip s" using w by (rule lstrip_spaces)
  then show ?thesis using s by (simp add: strip_def)
qed

lemma marker_step_key_value:
  assumes v: "strip v = v"
    and w: "list_all isspace w"
    and k: "k \<noteq> []" "\<forall>x \<in> set k. \<not> isspace x \<and> x \<noteq> CHR '':''"
  shows "marker_step (w @ k @ '': '' @ v) res = dict_set k v res"
proof -
  have sp: "isspace CHR '' ''" by (simp add: isspace_def)
  have nc: "\<not> isspace CHR '':''" by (simp add: isspace_def)
  have st: "stripped v" using v by (rule strip_eq_stripped)
  define p where "p = strip (w @ k @ '': '' @ v)"
  have "lstrip (w @ (k @ '': '' @ v)) = lstrip (k @ '': '' @ v)"
    using w by (rule lstrip_spaces)
  moreover have "lstrip (k @ '': '' @ v) = k @ '': '' @ v"
    using k by (intro lstrip_keep) (cases k, simp_all)
  ultimately have l: "lstrip (w @ k @ '': '' @ v) = k @ '': '' @ v" by simp
  have p: "p = k @ CHR '':'' # (if v = [] then [] else CHR '' '' # v)"
  proof (cases "v = []")
    case True
    have "rstrip ((k @ '':'') @ '' '') = rstrip (k @ '':'')"
      using sp by (intro rstrip_spaces) simp
    also have "\<dots> = k @ '':''" using nc by (intro rstrip_keep) simp
    finally show ?thesis using True l by (simp add: p_def strip_def)
  next
    case False
    then have "rstrip (k @ '': '' @ v) = k @ '': '' @ v"
      using st by (intro rstrip_keep) (simp add: stripped_def)
    then show ?thesis using False l by (simp add: p_def strip_def)
  qed
  have kc: "\<And>x. x \<in> set k \<Longrightarrow> x \<noteq> CHR '':''" using k by blast
  have "takeWhile (\<lambda>x. x \<noteq> CHR '':'') (k @ CHR '':'' # (if v = [] then [] else CHR '' '' # v))
          = k @ takeWhile (\<lambda>x. x \<noteq> CHR '':'') (CHR '':'' # (if v = [] then [] else CHR '' '' # v))"
    using kc by (rule takeWhile_append2)
  then have tk: "takeWhile (\<lambda>x. x \<noteq> CHR '':'') p = k"
    unfolding p by simp
  have "dropWhile (\<lambda>x. x \<noteq> CHR '':'') (k @ CHR '':'' # (if v = [] then [] else CHR '' '' # v))
          = dropWhile (\<lambda>x. x \<noteq> CHR '':'') (CHR '':'' # (if v = [] then [] else CHR '' '' # v))"
    using kc by (rule dropWhile_append2)
  then have dk: "tl (dropWhile (\<lambda>x. x \<noteq> CHR '':'') p) = (if v = [] then [] else CHR '' '' # v)"
    unfolding p by simp
  have "\<not> isspace (hd k) \<and> \<not> isspace (last k)"
    using k by (metis hd_in_set last_in_set)
  then have sk: "strip k = k"
    by (intro strip_stripped) (simp add: stripped_def)
  have sv: "strip (if v = [] then [] else CHR '' '' # v) = v"
  proof (cases "v = []")
    case True
    then show ?thesis by (simp add: strip_def lstrip_def rstrip_def)
  next
    case False
    have "strip ('' '' @ v) = v" using v sp by (intro strip_leading) simp_all
    with False show ?thesis by simp
  qed
  have "CHR '':'' \<in> set p" by (simp add: p)
  then show ?thesis
    unfolding marker_step_def p_def[symmetric] Let_def by (simp add: tk dk sk sv)
qed

lemma wf_value_chars:
  "wf_value v \<Longrightarrow> CHR '','' \<notin> set v \<and> CHR '']'' \<notin> set v \<and> CHR 0x0A \<notin> set v \<and> strip v = v"
  by (simp add: wf_value_def)

lemma marker_parts_chars:
  assumes "wf_cell c" and "x \<in> {CHR '','', CHR '']'', CHR 0x0A}"
  shows "\<forall>p \<in> set (marker_parts c). x \<notin> set p"
  using assms
  by (auto simp: wf_cell_def wf_value_def marker_parts_def split: option.splits)

lemma marker_parts_not_Nil [simp]: "marker_parts c \<noteq> []"
  by (simp add: marker_parts_def)

lemma marker_content_chars:
  assumes "wf_cell c" and "x \<in> {CHR '']'', CHR 0x0A}"
  shows "x \<notin> set (str_join '', '' (marker_parts c))"
proof
  assume "x \<in> set (str_join '', '' (marker_parts c))"
  then have "x \<in> set '', '' \<union> \<Union> (set ` set (marker_parts c))"
    using set_str_join by blast
  moreover have "x \<notin> set '', ''" using assms(2) by auto
  moreover have "\<forall>p \<in> set (marker_parts c). x \<notin> set p"
    using assms by (intro marker_parts_chars) auto
  ultimately show False by blast
qed

lemma str_join_not_Nil: "x \<noteq> [] \<Longrightarrow> str_join sep (x # xs) \<noteq> []"
  by (cases xs) auto

lemma marker_content_not_Nil: "str_join '', '' (marker_parts c) \<noteq> []"
  unfolding marker_parts_def append_Cons append_Nil by (rule str_join_not_Nil) simp

lemma marker_line_no_newline: "wf_cell c \<Longrightarrow> CHR 0x0A \<notin> set (marker_line c)"
  using marker_content_chars[of c "CHR 0x0A"] by (simp add: marker_line_def)

lemma marker_match_marker_line:
  assumes "wf_cell c"
  shows "marker_match (marker_line c) = Some (str_join '', '' (marker_parts c))"
proof -
  define m where "m = str_join '', '' (marker_parts c)"
  have nb: "\<And>x. x \<in> set m \<Longrightarrow> x \<noteq> CHR '']''"
    using marker_content_chars[OF assms, of "CHR '']''"] by (auto simp: m_def)
  have ne: "m \<noteq> []" unfolding m_def by (rule marker_content_not_Nil)
  have t: "takeWhile (\<lambda>x. x \<noteq> CHR '']'') (m @ '']'') = m"
    using takeWhile_append2[of m "\<lambda>x. x \<noteq> CHR '']''" "'']''"] nb by simp
  have d: "dropWhile (\<lambda>x. x \<noteq> CHR '']'') (m @ '']'') = '']''"
    using dropWhile_append2[of m "\<lambda>x. x \<noteq> CHR '']''" "'']''"] nb by simp
  have "marker_match (''# %% ['' @ m @ '']'') = Some m"
    by (simp add: marker_match_def isspace_def t d ne)
  then show ?thesis by (simp add: marker_line_def m_def)
qed

lemma id_key: "''id'' \<noteq> [] \<and> (\<forall>x \<in> set ''id''. \<not> isspace x \<and> x \<noteq> CHR '':'')"
  by (simp add: isspace_def)

lemma type_key: "''type'' \<noteq> [] \<and> (\<forall>x \<in> set ''type''. \<not> isspace x \<and> x \<noteq> CHR '':'')"
  by (simp add: isspace_def)

lemma as_key: "''as'' \<noteq> [] \<and> (\<forall>x \<in> set ''as''. \<not> isspace x \<and> x \<noteq> CHR '':'')"
  by (simp add: isspace_def)

lemma step_id: "strip v = v \<Longrightarrow> marker_step (''id: '' @ v) res = dict_set ''id'' v res"
  using marker_step_key_value[of v "[]" "''id''" res] id_key by simp

lemma step_type: "strip v = v \<Longrightarrow> marker_step ('' type: '' @ v) res = dict_set ''type'' v res"
  using marker_step_key_value[of v "'' ''" "''type''" res] type_key by (simp add: isspace_def)

lemma step_as: "strip v = v \<Longrightarrow> marker_step ('' as: '' @ v) res = dict_set ''as'' v res"
  using marker_step_key_value[of v "'' ''" "''as''" res] as_key by (simp add: isspace_def)

lemmas step_simps = step_id [simplified] step_type [simplified] step_as [simplified]

lemma parse_marker_marker_parts:
  assumes "wf_cell c"
  shows "dict_get (parse_marker (str_join '', '' (marker_parts c))) ''id'' = Some (cid c)"
    and "dict_get (parse_marker (str_join '', '' (marker_parts c))) ''type''
           = (if cell_type c \<noteq> ''python'' then Some (cell_type c) else None)"
    and "dict_get (parse_marker (str_join '', '' (marker_parts c))) ''as'' = as_var c"
proof -
  have nc: "\<forall>p \<in> set (marker_parts c). CHR '','' \<notin> set p"
    using assms by (intro marker_parts_chars) auto
  have sp: "split_on CHR '','' (str_join '', '' (marker_parts c))
              = hd (marker_parts c) # map ((@) '' '') (tl (marker_parts c))"
    using split_on_str_join[of "marker_parts c" "CHR '',''" "'' ''"] nc by simp
  have i: "strip (cid c) = cid c" and t: "strip (cell_type c) = cell_type c"
    using assms by (simp_all add: wf_cell_def wf_value_def)
  have a: "\<And>v. as_var c = Some v \<Longrightarrow> strip v = v \<and> v \<noteq> []"
    using assms by (auto simp: wf_cell_def wf_value_def)
  have pm: "parse_marker (str_join '', '' (marker_parts c))
      = (case as_var c of
           None \<Rightarrow> (\<lambda>d. d)
         | Some v \<Rightarrow> dict_set ''as'' v)
          ((if cell_type c \<noteq> ''python'' then dict_set ''type'' (cell_type c) else (\<lambda>d. d))
             (dict_set ''id'' (cid c) []))"
    unfolding parse_marker_def sp
    using i t a
    by (auto simp: marker_parts_def step_simps split: option.splits)
  show "dict_get (parse_marker (str_join '', '' (marker_parts c))) ''id'' = Some (cid c)"
    unfolding pm by (auto simp: dict_get_dict_set dict_get_def split: option.splits)
  show "dict_get (parse_marker (str_join '', '' (marker_parts c))) ''type''
           = (if cell_type c \<noteq> ''python'' then Some (cell_type c) else None)"
    unfolding pm by (auto simp: dict_get_dict_set dict_get_def split: option.splits)
  show "dict_get (parse_marker (str_join '', '' (marker_parts c))) ''as'' = as_var c"
    unfolding pm by (auto simp: dict_get_dict_set dict_get_def split: option.splits)
qed

lemma parse_line_marker_line:
  assumes "wf_cell c"
  shows "parse_line rnd (marker_line c) st
           = \<lparr>parsed_cells = close_cell st, current_cell = Some (c\<lparr>code := []\<rparr>),
              current_code_lines = [], draws = Suc (draws st)\<rparr>"
  unfolding parse_line_def
  by (simp add: marker_match_marker_line[OF assms] parse_marker_marker_parts[OF assms] Let_def)

lemma parse_line_code:
  "marker_match l = None \<Longrightarrow> current_cell st = Some d \<Longrightarrow>
   parse_line rnd l st = st\<lparr>current_code_lines := current_code_lines st @ [l]\<rparr>"
  by (simp add: parse_line_def)

lemma parse_code_lines:
  "list_all (\<lambda>l. marker_match l = None) ls \<Longrightarrow> current_cell st = Some d \<Longrightarrow>
   fold (parse_line rnd) ls st = st\<lparr>current_code_lines := current_code_lines st @ ls\<rparr>"
proof (induction ls arbitrary: st)
  case Nil
  then show ?case by simp
next
  case (Cons l ls)
  then show ?case by (simp add: parse_line_code)
qed

lemma marker_match_Nil [simp]: "marker_match [] = None"
  by (simp add: marker_match_def)

lemma parse_cell_lines:
  assumes "wf_cell c"
  shows "close_cell (fold (parse_line rnd) (cell_lines c) st) = close_cell st @ [c]"
    and "current_cell (fold (parse_line rnd) (cell_lines c) st) \<noteq> None"
proof -
  let ?st1 = "\<lparr>parsed_cells = close_cell st, current_cell = Some (c\<lparr>code := []\<rparr>),
              current_code_lines = [], draws = Suc (draws st)\<rparr>"
  have nm: "list_all (\<lambda>l. marker_match l = None) (split_on (CHR 0x0A) (code c) @ [[]])"
    using assms by (simp add: wf_cell_def)
  have f: "fold (parse_line rnd) (cell_lines c) st
             = ?st1\<lparr>current_code_lines := split_on (CHR 0x0A) (code c) @ [[]]\<rparr>"
    unfolding cell_lines_def
    using parse_code_lines[OF nm, of ?st1 "c\<lparr>code := []\<rparr>" rnd]
    by (simp add: parse_line_marker_line[OF assms])
  have "str_join [CHR 0x0A] (split_on (CHR 0x0A) (code c) @ [[]]) = code c @ [CHR 0x0A]"
    by (simp add: str_join_snoc str_join_split_on)
  moreover have "strip (code c @ [CHR 0x0A]) = code c"
    using assms by (intro strip_trailing) (simp_all add: wf_cell_def isspace_def)
  ultimately show "close_cell (fold (parse_line rnd) (cell_lines c) st) = close_cell st @ [c]"
    unfolding f by (simp add: close_cell_def)
  show "current_cell (fold (parse_line rnd) (cell_lines c) st) \<noteq> None"
    unfolding f by simp
qed

lemma parse_all_cell_lines:
  "\<forall>c \<in> set cs. wf_cell c \<Longrightarrow>
   close_cell (fold (parse_line rnd) (concat (map cell_lines cs)) st) = close_cell st @ cs"
proof (induction cs arbitrary: st)
  case Nil
  then show ?case by simp
next
  case (Cons c cs)
  then show ?case by (simp add: parse_cell_lines(1))
qed

lemma split_serialize_cell:
  assumes "wf_cell c"
  shows "split_on (CHR 0x0A) (serialize_cell c @ CHR 0x0A # rest)
           = marker_line c # split_on (CHR 0x0A) (code c) @ split_on (CHR 0x0A) rest"
proof -
  have "split_on (CHR 0x0A) (marker_line c @ CHR 0x0A # (code c @ CHR 0x0A # rest))
          = split_on (CHR 0x0A) (marker_line c) @ split_on (CHR 0x0A) (code c @ CHR 0x0A # rest)"
    by (rule split_on_append)
  moreover have "split_on (CHR 0x0A) (marker_line c) = [marker_line c]"
    using marker_line_no_newline[OF assms] by (rule split_on_none)
  moreover have "split_on (CHR 0x0A) (code c @ CHR 0x0A # rest)
                   = split_on (CHR 0x0A) (code c) @ split_on (CHR 0x0A) rest"
    by (rule split_on_append)
  ultimately show ?thesis by (simp add: serialize_cell_lines)
qed

lemma split_serialize_notebook:
  "cs \<noteq> [] \<Longrightarrow> \<forall>c \<in> set cs. wf_cell c \<Longrightarrow>
   split_on (CHR 0x0A) (serialize_notebook cs) = concat (map cell_lines cs)"
proof (induction cs rule: list_nonempty_induct)
  case (single c)
  then show ?case
    using split_serialize_cell[of c "[]"] by (simp add: serialize_notebook_def cell_lines_def)
next
  case (cons c cs)
  obtain d ds where ds: "cs = d # ds" using cons.hyps by (cases cs) auto
  have "serialize_notebook (c # cs) = serialize_cell c @ CHR 0x0A # CHR 0x0A # serialize_notebook cs"
    by (simp add: serialize_notebook_def ds)
  moreover have "split_on (CHR 0x0A) (CHR 0x0A # serialize_notebook cs)
                   = [] # split_on (CHR 0x0A) (serialize_notebook cs)"
    by simp
  ultimately show ?case
    using split_serialize_cell[of c "CHR 0x0A # serialize_notebook cs"] cons
    by (simp add: cell_lines_def)
qed

theorem parse_serialize_wf:
  assumes "\<forall>c \<in> set cs. wf_cell c"
  shows "parse_notebook rnd (serialize_notebook cs) = cs"
proof (cases "cs = []")
  case True
  then show ?thesis
    by (simp add: serialize_notebook_def parse_notebook_def parse_line_def close_cell_def)
next
  case False
  let ?init = "\<lparr>parsed_cells = [], current_cell = None, current_code_lines = [], draws = 0\<rparr>"
  have "parse_notebook rnd (serialize_notebook cs)
          = close_cell (fold (parse_line rnd) (concat (map cell_lines cs)) ?init)"
    by (simp add: parse_notebook_def split_serialize_notebook[OF False assms])
  also have "\<dots> = close_cell ?init @ cs"
    by (rule parse_all_cell_lines[OF assms])
  also have "close_cell ?init = []"
    by (simp add: close_cell_def)
  finally show ?thesis by simp
qed

subsection \<open>What the parser produces\<close>

definition wf_fields :: "Cell \<Rightarrow> bool" where
  "wf_fields c =
     (wf_value (cid c) \<and> wf_value (cell_type c) \<and>
      (case as_var c of None \<Rightarrow> True | Some a \<Rightarrow> wf_value a))"

definition values_within :: "char set \<Rightarrow> (string, string) dict \<Rightarrow> bool" where
  "values_within X d = (\<forall>k v. dict_get d k = Some v \<longrightarrow> strip v = v \<and> set v \<subseteq> X)"

lemma marker_match_chars:
  assumes "marker_match line = Some m"
  shows "set m \<subseteq> set line - {CHR '']''}"
proof -
  obtain c rest where r: "dropWhile isspace (drop 4 line) = c # rest"
    and m: "m = takeWhile (\<lambda>x. x \<noteq> CHR '']'') rest"
    using assms
    by (auto simp: marker_match_def Let_def split: if_splits list.splits)
  have "set rest \<subseteq> set (dropWhile isspace (drop 4 line))" using r by auto
  also have "\<dots> \<subseteq> set (drop 4 line)" using set_dropWhileD by fastforce
  also have "\<dots> \<subseteq> set line" using set_drop_subset by fast
  finally have "set rest \<subseteq> set line" .
  moreover have "set m \<subseteq> set rest" unfolding m using set_takeWhileD by fastforce
  moreover have "CHR '']'' \<notin> set m" unfolding m using set_takeWhileD by fastforce
  ultimately show ?thesis by blast
qed

lemma marker_step_values:
  assumes "values_within X d" and "set part \<subseteq> X"
  shows "values_within X (marker_step part d)"
proof -
  let ?p = "strip part"
  let ?v = "strip (tl (dropWhile (\<lambda>x. x \<noteq> CHR '':'') ?p))"
  have "set ?v \<subseteq> set (tl (dropWhile (\<lambda>x. x \<noteq> CHR '':'') ?p))" by (rule set_strip)
  also have "\<dots> \<subseteq> set (dropWhile (\<lambda>x. x \<noteq> CHR '':'') ?p)"
    by (metis list.sel(2) list.set_sel(2) subsetI)
  also have "\<dots> \<subseteq> set ?p" using set_dropWhileD by fastforce
  also have "\<dots> \<subseteq> set part" by (rule set_strip)
  finally have "set ?v \<subseteq> X" using assms(2) by blast
  moreover have "strip ?v = ?v" by simp
  ultimately show ?thesis
    using assms(1) unfolding marker_step_def Let_def values_within_def
    by (auto simp: dict_get_dict_set)
qed

lemma fold_marker_step_values:
  "values_within X d \<Longrightarrow> \<forall>p \<in> set ps. set p \<subseteq> X \<Longrightarrow> values_within X (fold marker_step ps d)"
  by (induction ps arbitrary: d) (auto simp: marker_step_values)

lemma parse_marker_values: "values_within (set m - {CHR '',''}) (parse_marker m)"
  unfolding parse_marker_def
proof (rule fold_marker_step_values)
  show "values_within (set m - {CHR '',''}) []"
    by (simp add: values_within_def dict_get_def)
  show "\<forall>p \<in> set (split_on CHR '','' m). set p \<subseteq> set m - {CHR '',''}"
    using split_on_elems[of _ "CHR '',''" m] by blast
qed

lemma hex_digit_cases: "hex_digit n \<in> set ''0123456789abcdef''"
  unfolding hex_digit_def by (rule nth_mem) simp

lemma wf_value_generate_cell_id: "wf_value (generate_cell_id n)"
proof -
  have h: "\<And>x. x \<in> set (generate_cell_id n) \<Longrightarrow> x \<in> set ''0123456789abcdef''"
    using hex_digit_cases by (auto simp: generate_cell_id_def)
  have ne: "generate_cell_id n \<noteq> []" by (simp add: generate_cell_id_def)
  have ns: "\<And>x. x \<in> set ''0123456789abcdef'' \<Longrightarrow>
              \<not> isspace x \<and> x \<noteq> CHR '','' \<and> x \<noteq> CHR '']'' \<and> x \<noteq> CHR 0x0A"
    by (auto simp: isspace_def)
  have "stripped (generate_cell_id n)"
    unfolding stripped_def using h ns ne by (metis hd_in_set last_in_set)
  then show ?thesis
    unfolding wf_value_def using h ns by (auto simp: strip_stripped)
qed

lemma wf_value_python: "wf_value ''python''"
  by (simp add: wf_value_def strip_def lstrip_def rstrip_def isspace_def)

lemma parse_line_current_wf:
  assumes "CHR 0x0A \<notin> set line" and "marker_match line = Some m"
  shows "\<exists>c. current_cell (parse_line rnd line st) = Some c \<and> wf_fields c"
proof -
  have X: "set m - {CHR '',''} \<subseteq> - {CHR '','', CHR '']'', CHR 0x0A}"
    using marker_match_chars[OF assms(2)] assms(1) by blast
  have v: "\<And>k v. dict_get (parse_marker m) k = Some v \<Longrightarrow> wf_value v"
    using parse_marker_values[of m] X unfolding values_within_def wf_value_def by blast
  show ?thesis
    using assms(2) v wf_value_generate_cell_id wf_value_python
    by (auto simp: parse_line_def Let_def wf_fields_def split: option.splits)
qed

definition parsed_ok :: "parse_state \<Rightarrow> bool" where
  "parsed_ok st =
     ((\<forall>c \<in> set (parsed_cells st). wf_fields c \<and> strip (code c) = code c) \<and>
      (case current_cell st of None \<Rightarrow> True | Some c \<Rightarrow> wf_fields c))"

lemma close_cell_ok:
  "parsed_ok st \<Longrightarrow> \<forall>c \<in> set (close_cell st). wf_fields c \<and> strip (code c) = code c"
  by (auto simp: parsed_ok_def close_cell_def wf_fields_def split: option.splits)

lemma parse_line_ok:
  assumes "parsed_ok st" and "CHR 0x0A \<notin> set line"
  shows "parsed_ok (parse_line rnd line st)"
proof (cases "marker_match line")
  case None
  then show ?thesis using assms(1)
    by (auto simp: parse_line_def parsed_ok_def split: option.splits)
next
  case (Some m)
  obtain c where c: "current_cell (parse_line rnd line st) = Some c" "wf_fields c"
    using parse_line_current_wf[OF assms(2) Some] by blast
  have "parsed_cells (parse_line rnd line st) = close_cell st"
    using Some by (simp add: parse_line_def Let_def)
  then show ?thesis
    using c close_cell_ok[OF assms(1)] by (simp add: parsed_ok_def)
qed

lemma parse_lines_ok:
  "parsed_ok st \<Longrightarrow> \<forall>l \<in> set ls. CHR 0x0A \<notin> set l \<Longrightarrow> parsed_ok (fold (parse_line rnd) ls st)"
  by (induction ls arbitrary: st) (auto simp: parse_line_ok)

lemma parse_notebook_ok:
  "\<forall>c \<in> set (parse_notebook rnd text). wf_fields c \<and> strip (code c) = code c"
  unfolding parse_notebook_def
proof (rule close_cell_ok, rule parse_lines_ok)
  show "parsed_ok \<lparr>parsed_cells = [], current_cell = None, current_code_lines = [], draws = 0\<rparr>"
    by (simp add: parsed_ok_def)
  show "\<forall>l \<in> set (split_on (CHR 0x0A) text). CHR 0x0A \<notin> set l"
    using split_on_elems by blast
qed

subsection \<open>The round trip\<close>

text \<open>
  C9.  The claim as stated: for every notebook text, parsing, serializing and parsing again
  gives the cells of the first parse.  The parser strips the source of a cell, and the
  serializer writes it back without any escape: in the text below the only line of the
  cell \<open>a\<close> is a marker line indented by one space, which is source for the first parse and,
  once stripped and written at the start of a line, the marker of a second cell for the
  second parse.
\<close>

theorem roundtrip_indented_marker_counterexample:
  "map cid (parse_notebook (\<lambda>n. 0) (serialize_notebook (parse_notebook (\<lambda>n. 0) indented_marker_text)))
     \<noteq> map cid (parse_notebook (\<lambda>n. 0) indented_marker_text)"
  by (simp add: ser_indented parse_indented) (simp add: parser_defs)

text \<open>
  The other way the round trip fails: an \<open>as\<close> key with an empty value is the empty string
  for the first parse; the serializer omits it (\<open>if cell.as_var\<close>) and the second parse
  has no output-binding name.
\<close>

definition empty_as_text :: string where
  "empty_as_text = ''# %% [id: a, as:]''"

lemma roundtrip_empty_as:
  "map as_var (parse_notebook (\<lambda>n. 0) empty_as_text) = [Some []] \<and>
   map as_var (parse_notebook (\<lambda>n. 0) (serialize_notebook (parse_notebook (\<lambda>n. 0) empty_as_text)))
     = [None]"
  by (simp add: parser_defs empty_as_text_def)

text \<open>
  C9, amended.  For every notebook text whose parse yields no cell with an empty
  output-binding name and no cell with a source line that matches the cell-marker pattern,
  parsing the serialization of the parsed cells gives the parsed cells again (identifiers,
  kinds, output-binding names and sources), whatever the random source of either parse.
\<close>

theorem parse_serialize_parse:
  assumes "list_all (\<lambda>c. as_var c \<noteq> Some [] \<and>
                          list_all (\<lambda>l. marker_match l = None) (split_on (CHR 0x0A) (code c)))
             (parse_notebook rnd text)"
  shows "parse_notebook rnd' (serialize_notebook (parse_notebook rnd text)) = parse_notebook rnd text"
proof (rule parse_serialize_wf, rule ballI)
  fix c
  assume c: "c \<in> set (parse_notebook rnd text)"
  have "wf_fields c \<and> strip (code c) = code c" using parse_notebook_ok c by blast
  moreover have "as_var c \<noteq> Some [] \<and>
                 list_all (\<lambda>l. marker_match l = None) (split_on (CHR 0x0A) (code c))"
    using assms c by (simp add: list_all_iff)
  ultimately show "wf_cell c"
    by (auto simp: wf_cell_def wf_fields_def split: option.splits)
qed

definition roundtrip_text :: string where
  "roundtrip_text =
     ''# %% [id: cell1]'' @ [CHR 0x0A] @ ''x = 10'' @ [CHR 0x0A] @ [CHR 0x0A] @
     ''# %% [id: cell2, type: sql, as: df]'' @ [CHR 0x0A] @ ''SELECT * FROM users''"

lemma parse_roundtrip_text:
  "parse_notebook (\<lambda>n. 0) roundtrip_text
     = [\<lparr>cid = ''cell1'', code = ''x = 10'', cell_type = ''python'', as_var = None\<rparr>,
        \<lparr>cid = ''cell2'', code = ''SELECT * FROM users'', cell_type = ''sql'', as_var = Some ''df''\<rparr>]"
  by (simp add: parser_defs roundtrip_text_def)

theorem parse_serialize_parse_witness:
  "list_all (\<lambda>c. as_var c \<noteq> Some [] \<and>
                  list_all (\<lambda>l. marker_match l = None) (split_on (CHR 0x0A) (code c)))
     (parse_notebook (\<lambda>n. 0) roundtrip_text) \<and>
   parse_notebook (\<lambda>n. 1) (serialize_notebook (parse_notebook (\<lambda>n. 0) roundtrip_text))
     = parse_notebook (\<lambda>n. 0) roundtrip_text \<and>
   map cid (parse_notebook (\<lambda>n. 0) roundtrip_text) = [''cell1'', ''cell2'']"
proof -
  have h: "list_all (\<lambda>c. as_var c \<noteq> Some [] \<and>
                  list_all (\<lambda>l. marker_match l = None) (split_on (CHR 0x0A) (code c)))
     (parse_notebook (\<lambda>n. 0) roundtrip_text)"
    by (simp add: parse_roundtrip_text) (simp add: marker_match_def)
  show ?thesis
    using h parse_serialize_parse[OF h, of "\<lambda>n. 1"] by (simp add: parse_roundtrip_text)
qed

end
